theory Spec2Isabelle
  imports Complex_Main "HOL-Library.Word" "HOL-Library.Multiset"
begin

section \<open>Data model of the span tree module\<close>

text \<open>
  JavaScript strings are sequences of UTF-16 code units, and \<^verbatim>\<open>.length\<close> counts code
  units. Each glyph the renderer uses (the solid block U+2588, the middle dot U+00B7,
  the box-drawing characters and the ellipsis) is one code unit.

  Numbers are modelled as exact reals: \<^verbatim>\<open>NaN\<close>, the infinities and the rounding error of
  double arithmetic are outside the model. Where the source divides by a number that can
  be zero, the model writes the JavaScript outcome out.
\<close>

type_synonym jsstring = "16 word list"

type_synonym ref = nat

definition ascii :: "string \<Rightarrow> jsstring" where
  "ascii s = map (\<lambda>c. of_nat (of_char c)) s"

record SpanData =
  spanId :: jsstring
  parentSpanId :: "jsstring option"
  name :: jsstring
  startTime :: real
  duration :: real
  attributes :: "(jsstring \<times> jsstring) list option"

text \<open>
  \<^verbatim>\<open>attributes\<close> holds the entries of the record in \<^verbatim>\<open>Object.entries\<close> order, each value
  already converted to the string that a template literal gives it.
\<close>

record SpanTreeNode = SpanData +
  children :: "ref list"

text \<open>
  Objects have identity: the caller's span objects, the caller's array, the nodes that
  \<^verbatim>\<open>buildSpanTree\<close> creates and the array copy it sorts all live in one heap, addressed
  by references. A node's \<^verbatim>\<open>children\<close> array holds references to nodes.
\<close>

datatype obj = Span SpanData | Node SpanTreeNode | Array "ref list"

record state =
  heap :: "ref \<Rightarrow> obj option"
  nextRef :: ref
  console :: "jsstring list"

text \<open>
  What JavaScript can throw here: a \<^verbatim>\<open>RangeError\<close> when the call stack is exhausted, a
  \<^verbatim>\<open>RangeError\<close> when \<^verbatim>\<open>String.prototype.repeat\<close> gets a negative count, and a
  \<^verbatim>\<open>TypeError\<close> when a property of \<^verbatim>\<open>undefined\<close> is read.
\<close>

datatype error = StackOverflow | InvalidCount | TypeError

text \<open>
  A function of the module takes the state and returns its outcome (\<open>Inl\<close> the error
  thrown, \<open>Inr\<close> the value returned) together with the state it leaves behind: what was
  written before a throw stays written.
\<close>

definition alloc :: "obj \<Rightarrow> state \<Rightarrow> ref \<times> state" where
  "alloc ob st =
     (nextRef st, st\<lparr>heap := (heap st)(nextRef st \<mapsto> ob), nextRef := Suc (nextRef st)\<rparr>)"

definition newNode :: "SpanData \<Rightarrow> SpanTreeNode" where
  "newNode span' =
     \<lparr>spanId = spanId span', parentSpanId = parentSpanId span', name = name span',
      startTime = startTime span', duration = duration span', attributes = attributes span',
      children = []\<rparr>"

definition spanOf :: "SpanTreeNode \<Rightarrow> SpanData" where
  "spanOf node =
     \<lparr>spanId = spanId node, parentSpanId = parentSpanId node, name = name node,
      startTime = startTime node, duration = duration node, attributes = attributes node\<rparr>"

definition truthy :: "jsstring option \<Rightarrow> bool" where
  "truthy p = (case p of None \<Rightarrow> False | Some s \<Rightarrow> s \<noteq> [])"

section \<open>Timeline bar\<close>

definition solidBlock :: "16 word" where
  "solidBlock = 0x2588"

definition middleDot :: "16 word" where
  "middleDot = 0xB7"

definition repeat :: "jsstring \<Rightarrow> int \<Rightarrow> error + jsstring" where
  "repeat s n = (if n < 0 then Inl InvalidCount else Inr (concat (replicate (nat n) s)))"

definition Math_round :: "real \<Rightarrow> int" where
  "Math_round x = \<lfloor>x + 1 / 2\<rfloor>"

definition renderTimelineBar :: "real \<Rightarrow> real \<Rightarrow> real \<Rightarrow> real \<Rightarrow> int \<Rightarrow> error + jsstring" where
  "renderTimelineBar startTime' duration' traceStartTime totalDuration barWidth =
     (if totalDuration = 0 then repeat [solidBlock] barWidth
      else
        let startOffset = max 0 (startTime' - traceStartTime);
            startRatio = min (startOffset / totalDuration) 1;
            durationRatio = min (duration' / totalDuration) (1 - startRatio);
            startPos = max 0 (Math_round (startRatio * of_int barWidth));
            barLength = max 1 (Math_round (durationRatio * of_int barWidth));
            adjustedStartPos = min startPos (barWidth - 1);
            endPos = min barWidth (adjustedStartPos + barLength)
        in case repeat [middleDot] adjustedStartPos of
             Inl e \<Rightarrow> Inl e
           | Inr leading \<Rightarrow>
               (case repeat [solidBlock] (max 1 (endPos - adjustedStartPos)) of
                  Inl e \<Rightarrow> Inl e
                | Inr bar \<Rightarrow>
                    (case repeat [middleDot] (max 0 (barWidth - endPos)) of
                       Inl e \<Rightarrow> Inl e
                     | Inr trailing \<Rightarrow> Inr (leading @ bar @ trailing))))"


section \<open>Building the span tree\<close>

text \<open>
  \<^verbatim>\<open>for (const span of spans) spanMap.set(span.spanId, { ...span, children: [] })\<close>:
  every span gets a new node object, a copy of the span's fields with an empty children
  array; a later span with the same \<^verbatim>\<open>spanId\<close> replaces the entry of an earlier one.
\<close>

fun createNodes ::
  "ref list \<Rightarrow> (jsstring \<Rightarrow> ref option) \<Rightarrow> state
     \<Rightarrow> (error + (jsstring \<Rightarrow> ref option)) \<times> state" where
  "createNodes [] spanMap st = (Inr spanMap, st)"
| "createNodes (a # rest) spanMap st =
     (case heap st a of
        Some (Span span') \<Rightarrow>
          (case alloc (Node (newNode span')) st of
             (node, st') \<Rightarrow> createNodes rest (spanMap(spanId span' \<mapsto> node)) st')
      | _ \<Rightarrow> (Inl TypeError, st))"

text \<open>
  The linking loop. \<^verbatim>\<open>spanMap.get(span.spanId)!\<close> cannot miss, since the first loop
  registered every \<^verbatim>\<open>spanId\<close>; the model gives that branch and the branch of a parent
  entry that is no node a \<^verbatim>\<open>TypeError\<close>.
\<close>

fun linkNodes ::
  "ref list \<Rightarrow> (jsstring \<Rightarrow> ref option) \<Rightarrow> ref option \<Rightarrow> state
     \<Rightarrow> (error + ref option) \<times> state" where
  "linkNodes [] spanMap root' st = (Inr root', st)"
| "linkNodes (a # rest) spanMap root' st =
     (case heap st a of
        Some (Span span') \<Rightarrow>
          (case spanMap (spanId span') of
             None \<Rightarrow> (Inl TypeError, st)
           | Some node \<Rightarrow>
               if truthy (parentSpanId span') \<and> spanMap (the (parentSpanId span')) \<noteq> None
               then (case spanMap (the (parentSpanId span')) of
                       None \<Rightarrow> (Inl TypeError, st)
                     | Some parent \<Rightarrow>
                         (case heap st parent of
                            Some (Node p) \<Rightarrow>
                              linkNodes rest spanMap root'
                                (st\<lparr>heap := (heap st)
                                   (parent \<mapsto> Node (p\<lparr>children := children p @ [node]\<rparr>))\<rparr>)
                          | _ \<Rightarrow> (Inl TypeError, st)))
               else if \<not> truthy (parentSpanId span')
               then linkNodes rest spanMap (Some node) st
               else linkNodes rest spanMap root' st)
      | _ \<Rightarrow> (Inl TypeError, st))"

text \<open>
  \<^verbatim>\<open>Array.prototype.forEach\<close> calls the callback with the element and its index; an
  exception thrown by the callback ends the loop.
\<close>

fun forEach ::
  "(ref \<Rightarrow> nat \<Rightarrow> 's \<Rightarrow> (error + unit) \<times> 's) \<Rightarrow> ref list \<Rightarrow> nat \<Rightarrow> 's
     \<Rightarrow> (error + unit) \<times> 's" where
  "forEach f [] i s = (Inr (), s)"
| "forEach f (c # cs) i s =
     (case f c i s of
        (Inl e, s') \<Rightarrow> (Inl e, s')
      | (Inr u, s') \<Rightarrow> forEach f cs (Suc i) s')"

text \<open>
  The \<^verbatim>\<open>startTime\<close> property of the object behind a reference, as the two sort
  comparators read it. With exact numbers the comparator \<^verbatim>\<open>a.startTime - b.startTime\<close>
  is a total preorder, and \<^verbatim>\<open>Array.prototype.sort\<close> is stable: the result is the stable
  sort by \<^verbatim>\<open>startTime\<close>.
\<close>

definition startTimeAt :: "state \<Rightarrow> ref \<Rightarrow> real" where
  "startTimeAt st r =
     (case heap st r of
        Some (Node n) \<Rightarrow> startTime n
      | Some (Span s) \<Rightarrow> startTime s
      | _ \<Rightarrow> 0)"

text \<open>
  \<^verbatim>\<open>sortChildren\<close> recurses as deep as the tree is. The first argument is the number of
  stack frames left: with none left the call throws the \<^verbatim>\<open>RangeError\<close> of an exhausted
  call stack.
\<close>

fun sortChildren :: "nat \<Rightarrow> ref \<Rightarrow> nat \<Rightarrow> state \<Rightarrow> (error + unit) \<times> state" where
  "sortChildren 0 node i st = (Inl StackOverflow, st)"
| "sortChildren (Suc depth) node i st =
     (case heap st node of
        Some (Node n) \<Rightarrow>
          (let kids = sort_key (startTimeAt st) (children n);
               st' = st\<lparr>heap := (heap st)(node \<mapsto> Node (n\<lparr>children := kids\<rparr>))\<rparr>
           in forEach (\<lambda>c j s. sortChildren depth c j s) kids 0 st')
      | _ \<Rightarrow> (Inl TypeError, st))"

definition buildSpanTree :: "nat \<Rightarrow> ref \<Rightarrow> state \<Rightarrow> (error + ref option) \<times> state" where
  "buildSpanTree depth spans st =
     (case heap st spans of
        Some (Array elems) \<Rightarrow>
          if length elems = 0 then (Inr None, st)
          else
            (case createNodes elems Map.empty st of
               (Inl e, st1) \<Rightarrow> (Inl e, st1)
             | (Inr spanMap, st1) \<Rightarrow>
                 (case linkNodes elems spanMap None st1 of
                    (Inl e, st2) \<Rightarrow> (Inl e, st2)
                  | (Inr (Some root'), st2) \<Rightarrow>
                      (case sortChildren depth root' 0 st2 of
                         (Inl e, st3) \<Rightarrow> (Inl e, st3)
                       | (Inr u, st3) \<Rightarrow> (Inr (Some root'), st3))
                  | (Inr None, st2) \<Rightarrow>
                      if length elems > 0
                      then (case alloc (Array elems) st2 of
                              (sortedSpans, st3) \<Rightarrow>
                                (let elems' = sort_key (startTimeAt st3) elems;
                                     st4 = st3\<lparr>heap := (heap st3)(sortedSpans \<mapsto> Array elems')\<rparr>
                                 in case elems' of
                                      [] \<Rightarrow> (Inl TypeError, st4)
                                    | first # others \<Rightarrow>
                                        (case heap st4 first of
                                           Some (Span span') \<Rightarrow> (Inr (spanMap (spanId span')), st4)
                                         | _ \<Rightarrow> (Inl TypeError, st4))))
                      else (Inr None, st2)))
      | _ \<Rightarrow> (Inl TypeError, st))"

section \<open>Rendering\<close>

definition esc :: "string \<Rightarrow> jsstring" where
  "esc s = 0x1B # ascii s"

definition colors_reset :: jsstring where "colors_reset = esc ''[0m''"
definition colors_green :: jsstring where "colors_green = esc ''[32m''"
definition colors_yellow :: jsstring where "colors_yellow = esc ''[33m''"
definition colors_red :: jsstring where "colors_red = esc ''[31m''"
definition colors_dim :: jsstring where "colors_dim = esc ''[2m''"
definition colors_cyan :: jsstring where "colors_cyan = esc ''[36m''"
definition colors_bold :: jsstring where "colors_bold = esc ''[1m''"

text \<open>
  \<^verbatim>\<open>duration / totalDuration\<close> with a zero divisor is an infinity or \<^verbatim>\<open>NaN\<close> in
  JavaScript: minus infinity is below 0.1, while plus infinity and \<^verbatim>\<open>NaN\<close> fail both
  comparisons.
\<close>

definition getDurationColor :: "real \<Rightarrow> real \<Rightarrow> jsstring" where
  "getDurationColor duration' totalDuration =
     (if totalDuration = 0
      then (if duration' < 0 then colors_green else colors_red)
      else
        let ratio = duration' / totalDuration
        in if ratio < 1 / 10 then colors_green
           else if ratio < 4 / 10 then colors_yellow
           else colors_red)"

fun digits10 :: "nat \<Rightarrow> jsstring" where
  "digits10 n = (if n < 10 then [of_nat (48 + n)] else digits10 (n div 10) @ [of_nat (48 + n mod 10)])"

text \<open>
  \<^verbatim>\<open>Number.prototype.toFixed\<close> for magnitudes below ten to the 21st: the sign, then
  the integer nearest to the magnitude times ten to the \<open>f\<close> (the larger one on a tie),
  written with a decimal point before its last \<open>f\<close> digits.
\<close>

definition toFixed :: "nat \<Rightarrow> real \<Rightarrow> jsstring" where
  "toFixed f x =
     (let s = (if x < 0 then ascii ''-'' else []);
          m = digits10 (nat \<lfloor>\<bar>x\<bar> * 10 ^ f + 1 / 2\<rfloor>)
      in if f \<noteq> 0
         then (let m' = replicate (f + 1 - length m) (of_nat 48) @ m;
                   k = length m'
               in s @ take (k - f) m' @ ascii ''.'' @ drop (k - f) m')
         else s @ m)"

fun join :: "jsstring \<Rightarrow> jsstring list \<Rightarrow> jsstring" where
  "join sep [] = []"
| "join sep [x] = x"
| "join sep (x # y # zs) = x @ sep @ join sep (y # zs)"

definition padEnd :: "nat \<Rightarrow> jsstring \<Rightarrow> jsstring" where
  "padEnd n s = s @ replicate (n - length s) 0x20"

definition timelineWidth :: int where
  "timelineWidth = 50"

definition nameColWidth :: nat where
  "nameColWidth = 45"

definition attrStr :: "(jsstring \<times> jsstring) list option \<Rightarrow> jsstring" where
  "attrStr attrs =
     (case attrs of
        None \<Rightarrow> []
      | Some kvs \<Rightarrow>
          if length kvs > 0
          then ascii '' ['' @ join (ascii '' '') (map (\<lambda>(k, v). k @ ascii ''='' @ v) (take 2 kvs))
               @ ascii '']''
          else [])"

text \<open>
  \<^verbatim>\<open>renderNode\<close> reads the tree and appends to the local array \<^verbatim>\<open>lines\<close>. Like
  \<^verbatim>\<open>sortChildren\<close> it recurses as deep as the tree is, and its first argument is the
  number of stack frames left.
\<close>

fun renderNode ::
  "nat \<Rightarrow> state \<Rightarrow> real \<Rightarrow> real \<Rightarrow> ref \<Rightarrow> jsstring \<Rightarrow> bool \<Rightarrow> bool \<Rightarrow> jsstring list
     \<Rightarrow> (error + unit) \<times> jsstring list" where
  "renderNode 0 st totalDuration traceStartTime node prefix isLast isRoot lines =
     (Inl StackOverflow, lines)"
| "renderNode (Suc depth) st totalDuration traceStartTime node prefix isLast isRoot lines =
     (case heap st node of
        Some (Node n) \<Rightarrow>
          (let connector =
                 (if isRoot then []
                  else if isLast then [0x2514, 0x2500, 0x20] else [0x251C, 0x2500, 0x20]);
               durationMs = toFixed 1 (duration n);
               color = getDurationColor (duration n) totalDuration
           in case renderTimelineBar (startTime n) (duration n) traceStartTime totalDuration
                     timelineWidth of
                Inl e \<Rightarrow> (Inl e, lines)
              | Inr timelineBar \<Rightarrow>
                  (let nameWithDuration =
                         prefix @ connector @ name n @ attrStr (attributes n)
                         @ ascii '' ('' @ durationMs @ ascii ''ms)'';
                       displayName =
                         (if length nameWithDuration > nameColWidth
                          then take (nameColWidth - 1) nameWithDuration @ [0x2026]
                          else padEnd nameColWidth nameWithDuration);
                       line = color @ displayName @ colors_reset @ colors_dim @ [0x2502]
                              @ colors_reset @ color @ timelineBar @ colors_reset @ colors_dim
                              @ [0x2502] @ colors_reset;
                       childPrefix =
                         (if isRoot then []
                          else prefix @ (if isLast then ascii ''   '' else [0x2502, 0x20, 0x20]))
                   in forEach
                        (\<lambda>child index ls.
                           renderNode depth st totalDuration traceStartTime child childPrefix
                             (int index = int (length (children n)) - 1) False ls)
                        (children n) 0 (lines @ [line])))
      | _ \<Rightarrow> (Inl TypeError, lines))"


definition renderSpanTree :: "nat \<Rightarrow> ref \<Rightarrow> real \<Rightarrow> real \<Rightarrow> state \<Rightarrow> error + jsstring" where
  "renderSpanTree depth root' totalDuration traceStartTime st =
     (case repeat (ascii '' '') (int nameColWidth) of
        Inl e \<Rightarrow> Inl e
      | Inr pad \<Rightarrow>
          (case repeat (ascii '' '') (timelineWidth - 7) of
             Inl e \<Rightarrow> Inl e
           | Inr gap \<Rightarrow>
               (let timeMarkers = pad @ colors_dim @ ascii ''0ms'' @ gap
                      @ toFixed 0 totalDuration @ ascii ''ms'' @ colors_reset
                in case renderNode depth st totalDuration traceStartTime root' [] True True
                          [timeMarkers] of
                     (Inl e, lines) \<Rightarrow> Inl e
                   | (Inr u, lines) \<Rightarrow> Inr (join [0x0A] lines))))"

definition console_log :: "jsstring \<Rightarrow> state \<Rightarrow> state" where
  "console_log s st = st\<lparr>console := console st @ [s]\<rparr>"

definition renderTrace :: "nat \<Rightarrow> jsstring \<Rightarrow> ref \<Rightarrow> state \<Rightarrow> (error + unit) \<times> state" where
  "renderTrace depth traceId spans st =
     (case buildSpanTree depth spans st of
        (Inl e, st1) \<Rightarrow> (Inl e, st1)
      | (Inr None, st1) \<Rightarrow> (Inr (), st1)
      | (Inr (Some tree), st1) \<Rightarrow>
          (case (heap st1 tree, heap st1 spans) of
             (Some (Node n), Some (Array elems)) \<Rightarrow>
               (let totalDuration = duration n;
                    traceStartTime = startTime n;
                    shortTraceId = take 8 traceId;
                    st2 = console_log [] st1;
                    st3 = console_log
                            (colors_bold @ colors_cyan @ ascii ''Trace '' @ shortTraceId
                             @ colors_reset @ ascii '' '' @ colors_dim @ ascii ''(''
                             @ toFixed 1 totalDuration @ ascii ''ms total, ''
                             @ digits10 (length elems) @ ascii '' spans)'' @ colors_reset) st2
                in case renderSpanTree depth tree totalDuration traceStartTime st3 of
                     Inl e \<Rightarrow> (Inl e, st3)
                   | Inr text' \<Rightarrow> (Inr (), console_log [] (console_log text' st3)))
           | _ \<Rightarrow> (Inl TypeError, st1)))"

section \<open>Callers\<close>

text \<open>
  The state a caller is in after evaluating an array literal of span object literals in an
  empty heap: the span objects at references \<open>0, 1, \<dots>\<close> in order, then the array.
\<close>

definition loadSpans :: "SpanData list \<Rightarrow> state" where
  "loadSpans ss =
     \<lparr>heap = (\<lambda>r. if r < length ss then Some (Span (ss ! r))
                  else if r = length ss then Some (Array [0..<length ss])
                  else None),
      nextRef = Suc (length ss),
      console = []\<rparr>"

text \<open>
  An input is well formed when the reference \<^verbatim>\<open>spans\<close> holds an array whose elements
  are references to the span objects \<open>ss\<close>, and no object lives at or beyond the allocation
  frontier \<open>nextRef\<close>.
\<close>

definition wellFormed :: "state \<Rightarrow> ref \<Rightarrow> ref list \<Rightarrow> SpanData list \<Rightarrow> bool" where
  "wellFormed st spans elems ss \<longleftrightarrow>
     heap st spans = Some (Array elems)
     \<and> map (heap st) elems = map (\<lambda>s. Some (Span s)) ss
     \<and> (\<forall>r. nextRef st \<le> r \<longrightarrow> heap st r = None)"

text \<open>
  Every node from reference \<open>n0\<close> on has its children from \<open>n0\<close> on: the objects the
  call creates refer only to each other.
\<close>

definition closedFrom :: "ref \<Rightarrow> state \<Rightarrow> bool" where
  "closedFrom n0 st \<longleftrightarrow>
     (\<forall>r nd. n0 \<le> r \<longrightarrow> heap st r = Some (Node nd) \<longrightarrow> (\<forall>c \<in> set (children nd). n0 \<le> c))"

text \<open>The objects below \<open>n0\<close> and the console are the same in both states.\<close>

definition sameBelow :: "ref \<Rightarrow> state \<Rightarrow> state \<Rightarrow> bool" where
  "sameBelow n0 st st' \<longleftrightarrow> (\<forall>r. r < n0 \<longrightarrow> heap st' r = heap st r)"

section \<open>Describing the tree\<close>

text \<open>The span data and the children of the node behind a reference.\<close>

definition spanAt :: "state \<Rightarrow> ref \<Rightarrow> SpanData option" where
  "spanAt st r = (case heap st r of Some (Node nd) \<Rightarrow> Some (spanOf nd) | _ \<Rightarrow> None)"

definition childrenAt :: "state \<Rightarrow> ref \<Rightarrow> ref list" where
  "childrenAt st r = (case heap st r of Some (Node nd) \<Rightarrow> children nd | _ \<Rightarrow> [])"

text \<open>
  Span \<open>c\<close> names span \<open>p\<close> as its parent: its \<^verbatim>\<open>parentSpanId\<close> is a non-empty string,
  the \<^verbatim>\<open>spanId\<close> of \<open>p\<close>.
\<close>

definition isChildOf :: "SpanData \<Rightarrow> SpanData \<Rightarrow> bool" where
  "isChildOf c p \<longleftrightarrow> truthy (parentSpanId c) \<and> parentSpanId c = Some (spanId p)"


text \<open>The positions, among the first \<open>k\<close> spans, of the spans that name span \<open>i\<close> as parent.\<close>

definition childIndices :: "SpanData list \<Rightarrow> nat \<Rightarrow> nat \<Rightarrow> nat list" where
  "childIndices ss k i = filter (\<lambda>j. isChildOf (ss ! j) (ss ! i)) [0..<k]"

text \<open>The position of the last span with no parent among the first \<open>k\<close> spans.\<close>

definition lastParentless :: "SpanData list \<Rightarrow> nat \<Rightarrow> nat option" where
  "lastParentless ss k =
     (case filter (\<lambda>j. \<not> truthy (parentSpanId (ss ! j))) [0..<k] of
        [] \<Rightarrow> None
      | js \<Rightarrow> Some (last js))"

text \<open>
  The node of span \<open>i\<close> is the object at reference \<open>n0 + i\<close>, where \<open>n0\<close> was the allocation
  frontier at the call; its children are the nodes of the spans at positions \<open>kids i\<close>.
\<close>

definition treeState :: "ref \<Rightarrow> SpanData list \<Rightarrow> (nat \<Rightarrow> nat list) \<Rightarrow> state \<Rightarrow> bool" where
  "treeState n0 ss kids st \<longleftrightarrow>
     (\<forall>i. i < length ss \<longrightarrow>
        heap st (n0 + i) = Some (Node ((newNode (ss ! i))\<lparr>children := map (\<lambda>j. n0 + j) (kids i)\<rparr>)))"

text \<open>A path of positions, each span naming the next one as its parent.\<close>

fun upchain :: "SpanData list \<Rightarrow> nat list \<Rightarrow> bool" where
  "upchain ss [] = False"
| "upchain ss [r] = (r < length ss)"
| "upchain ss (c # p # rest) =
     (c < length ss \<and> isChildOf (ss ! c) (ss ! p) \<and> upchain ss (p # rest))"

text \<open>
  The position of the span that span \<open>j\<close> names as its parent, the span \<open>k\<close> links up
  from span \<open>j\<close>, and whether span \<open>j\<close> is its own ancestor: whether walking up from it
  comes back to it.
\<close>

definition parentIndex :: "SpanData list \<Rightarrow> nat \<Rightarrow> nat option" where
  "parentIndex ss j = find (\<lambda>i. isChildOf (ss ! j) (ss ! i)) [0..<length ss]"

fun ancestor :: "SpanData list \<Rightarrow> nat \<Rightarrow> nat \<Rightarrow> nat option" where
  "ancestor ss 0 j = Some j"
| "ancestor ss (Suc k) j =
     (case parentIndex ss j of None \<Rightarrow> None | Some p \<Rightarrow> ancestor ss k p)"

definition ownAncestor :: "SpanData list \<Rightarrow> nat \<Rightarrow> bool" where
  "ownAncestor ss j \<longleftrightarrow> (\<exists>k \<in> {1..length ss}. ancestor ss k j = Some j)"

text \<open>
  The position of the span that \<^verbatim>\<open>buildSpanTree\<close> makes the root, for spans with unique
  ids: the last span without a parent, or else the first span of minimum \<^verbatim>\<open>startTime\<close>.
\<close>

definition rootIndex :: "SpanData list \<Rightarrow> nat" where
  "rootIndex ss =
     (case lastParentless ss (length ss) of
        Some i \<Rightarrow> i
      | None \<Rightarrow> hd (sort_key (\<lambda>j. startTime (ss ! j)) [0..<length ss]))"

text \<open>The spans below span \<open>i\<close> in the parent links, span \<open>i\<close> included, by position.\<close>

inductive descendant :: "SpanData list \<Rightarrow> nat \<Rightarrow> nat \<Rightarrow> bool" for ss :: "SpanData list" and i :: nat where
  descendant_self: "descendant ss i i"
| descendant_child:
    "descendant ss i p \<Longrightarrow> c < length ss \<Longrightarrow> isChildOf (ss ! c) (ss ! p) \<Longrightarrow> descendant ss i c"

text \<open>
  The nodes of the tree under \<open>root'\<close>: the root and, with every node, the nodes its
  \<^verbatim>\<open>children\<close> array refers to.
\<close>

inductive inTree :: "state \<Rightarrow> ref \<Rightarrow> ref \<Rightarrow> bool" for st :: state and root' :: ref where
  inTree_root: "inTree st root' root'"
| inTree_child: "inTree st root' p \<Longrightarrow> c \<in> set (childrenAt st p) \<Longrightarrow> inTree st root' c"

section \<open>Example inputs\<close>

text \<open>
  The object literal \<^verbatim>\<open>{ spanId: i, parentSpanId: p, name: i, startTime: s, duration: d }\<close>,
  without \<^verbatim>\<open>parentSpanId\<close> when \<open>p\<close> is \<open>None\<close>.
\<close>

definition mkSpan :: "string \<Rightarrow> string option \<Rightarrow> real \<Rightarrow> real \<Rightarrow> SpanData" where
  "mkSpan i p s d =
     \<lparr>spanId = ascii i, parentSpanId = map_option ascii p, name = ascii i,
      startTime = s, duration = d, attributes = None\<rparr>"

text \<open>A root with two children, the later child first in the input.\<close>

definition rootWithTwoChildren :: "SpanData list" where
  "rootWithTwoChildren =
     [mkSpan ''A'' None 0 100, mkSpan ''C'' (Some ''A'') 50 10, mkSpan ''B'' (Some ''A'') 10 20]"

text \<open>
  Three spans without a parent, the earliest first, and a child of the last of them at
  the end.
\<close>

definition threeParentless :: "SpanData list" where
  "threeParentless =
     [mkSpan ''P'' None 1 1, mkSpan ''X'' None 3 1, mkSpan ''Y'' None 5 1,
      mkSpan ''K'' (Some ''Y'') 6 1]"

text \<open>Two spans without a parent, then a span that repeats the \<^verbatim>\<open>spanId\<close> of the second.\<close>

definition twoParentlessThenDuplicate :: "SpanData list" where
  "twoParentlessThenDuplicate =
     [mkSpan ''X'' None 5 1, mkSpan ''Y'' None 1 1, mkSpan ''Y'' (Some ''zz'') 3 1]"

text \<open>
  No span without a parent: the parent of the first span is not in the input, and the
  later of its two children comes first.
\<close>

definition noParentless :: "SpanData list" where
  "noParentless =
     [mkSpan ''R'' (Some ''zz'') 0 100, mkSpan ''B'' (Some ''R'') 20 1,
      mkSpan ''C'' (Some ''R'') 10 1]"

text \<open>No span without a parent, and the same \<^verbatim>\<open>spanId\<close> twice.\<close>

definition duplicateEarliest :: "SpanData list" where
  "duplicateEarliest = [mkSpan ''A'' (Some ''P'') 0 1, mkSpan ''A'' (Some ''P'') 5 1]"

text \<open>A span without a parent, then a span with the same \<^verbatim>\<open>spanId\<close> that is its own parent.\<close>

definition duplicateSelfParent :: "SpanData list" where
  "duplicateSelfParent = [mkSpan ''A'' None 0 100, mkSpan ''A'' (Some ''A'') 20 1]"


text \<open>One span that is its own parent.\<close>

definition selfParent :: "SpanData list" where
  "selfParent = [mkSpan ''A'' (Some ''A'') 0 100]"


section \<open>Properties of the timeline bar\<close>

lemma repeat_single: "0 \<le> n \<Longrightarrow> repeat [c] n = Inr (replicate (nat n) c)"
  by (simp add: repeat_def)

lemma bar_of_positions:
  assumes "0 \<le> startPos" and "1 \<le> barLength" and "1 \<le> w"
  shows "\<exists>bar.
    (case repeat [middleDot] (min startPos (w - 1)) of
       Inl e \<Rightarrow> Inl e
     | Inr leading \<Rightarrow>
         (case repeat [solidBlock]
                 (max 1 (min w (min startPos (w - 1) + barLength) - min startPos (w - 1))) of
            Inl e \<Rightarrow> Inl e
          | Inr bar \<Rightarrow>
              (case repeat [middleDot] (max 0 (w - min w (min startPos (w - 1) + barLength))) of
                 Inl e \<Rightarrow> Inl e
               | Inr trailing \<Rightarrow> Inr (leading @ bar @ trailing)))) = Inr bar
    \<and> int (length bar) = w \<and> solidBlock \<in> set bar"
proof -
  define adj where "adj = min startPos (w - 1)"
  define endPos where "endPos = min w (adj + barLength)"
  have adj0: "0 \<le> adj" and adjw: "adj < w"
    using assms by (simp_all add: adj_def)
  have e1: "adj < endPos" and e2: "endPos \<le> w"
    using adjw assms(2) by (simp_all add: endPos_def)
  have m1: "max 1 (endPos - adj) = endPos - adj" and m2: "max 0 (w - endPos) = w - endPos"
    using e1 e2 by simp_all
  show ?thesis
    unfolding adj_def [symmetric] endPos_def [symmetric] m1 m2
    using adj0 e1 e2 by (simp add: repeat_single)
qed

lemma renderTimelineBar_shape:
  assumes "1 \<le> w"
  shows "\<exists>bar. renderTimelineBar s d t0 tot w = Inr bar
               \<and> int (length bar) = w \<and> solidBlock \<in> set bar"
proof (cases "tot = 0")
  case True
  with assms show ?thesis
    by (simp add: renderTimelineBar_def repeat_single)
next
  case False
  have "0 \<le> max 0 (Math_round (min (max 0 (s - t0) / tot) 1 * of_int w))"
    and "1 \<le> max 1 (Math_round (min (d / tot) (1 - min (max 0 (s - t0) / tot) 1) * of_int w))"
    by simp_all
  from bar_of_positions [OF this assms] False show ?thesis
    unfolding renderTimelineBar_def Let_def by simp
qed

text \<open>
  Claim C5. For a node with non-negative duration, a non-negative total duration and a
  bar width of at least one cell, \<^verbatim>\<open>renderTimelineBar\<close> returns a string (it does not
  throw) whose length is exactly the bar width and which contains a solid block.
\<close>

theorem renderTimelineBar_length_and_block:
  assumes "0 \<le> d" and "0 \<le> tot" and "1 \<le> w"
  shows "\<exists>bar. renderTimelineBar s d t0 tot w = Inr bar
               \<and> int (length bar) = w \<and> solidBlock \<in> set bar"
  using assms(3) by (rule renderTimelineBar_shape)

theorem renderTimelineBar_length_and_block_witness:
  "(0::real) \<le> 20 \<and> (0::real) \<le> 100 \<and> (1::int) \<le> 40
   \<and> (\<exists>bar. renderTimelineBar 10 20 0 100 40 = Inr bar
          \<and> int (length bar) = 40 \<and> solidBlock \<in> set bar)"
  using renderTimelineBar_length_and_block [of 20 100 40 10 0] by simp

text \<open>
  Claim C8. When the total duration is zero and the bar width is at least one, the bar is
  the solid block repeated bar-width times, whatever the start time and duration are.
\<close>

theorem renderTimelineBar_zero_total:
  assumes "1 \<le> w"
  shows "renderTimelineBar s d t0 0 w = Inr (replicate (nat w) solidBlock)"
  using assms by (simp add: renderTimelineBar_def repeat_single)

theorem renderTimelineBar_zero_total_witness:
  "(1::int) \<le> 50 \<and> renderTimelineBar 3 7 1 0 50 = Inr (replicate (nat 50) solidBlock)"
  using renderTimelineBar_zero_total [of 50 3 7 1] by simp

lemma sameBelow_refl: "sameBelow n0 st st"
  by (simp add: sameBelow_def)

lemma sameBelow_trans: "sameBelow n0 st st' \<Longrightarrow> sameBelow n0 st' st'' \<Longrightarrow> sameBelow n0 st st''"
  by (simp add: sameBelow_def)

lemma closedFrom_update:
  assumes "closedFrom n0 st" and "\<forall>c \<in> set (children nd). n0 \<le> c"
  shows "closedFrom n0 (st\<lparr>heap := (heap st)(r \<mapsto> Node nd)\<rparr>)"
  using assms by (auto simp: closedFrom_def)

lemma closedFrom_next:
  "closedFrom n0 st \<Longrightarrow> closedFrom n0 (st\<lparr>nextRef := k\<rparr>)"
  by (simp add: closedFrom_def)

lemma createNodes_frame:
  assumes "createNodes elems m st = (res, st')"
    and "n0 \<le> nextRef st" and "closedFrom n0 st" and "\<forall>k r. m k = Some r \<longrightarrow> n0 \<le> r"
  shows "closedFrom n0 st' \<and> sameBelow n0 st st' \<and> nextRef st \<le> nextRef st'
         \<and> console st' = console st
         \<and> (\<forall>m'. res = Inr m' \<longrightarrow> (\<forall>k r. m' k = Some r \<longrightarrow> n0 \<le> r))"
  using assms
proof (induction elems arbitrary: m st)
  case Nil
  then show ?case by (auto simp: sameBelow_def)
next
  case (Cons a rest)
  show ?case
  proof (cases "heap st a")
    case None
    with Cons.prems show ?thesis by (auto simp: sameBelow_def)
  next
    case (Some ob)
    show ?thesis
    proof (cases ob)
      case (Span sp)
      define st1 where "st1 = snd (alloc (Node (newNode sp)) st)"
      define m1 where "m1 = m(spanId sp \<mapsto> nextRef st)"
      have run: "createNodes rest m1 st1 = (res, st')"
        using Cons.prems(1) Some Span by (simp add: alloc_def st1_def m1_def)
      have c1: "closedFrom n0 st1"
        using Cons.prems(3) by (auto simp: st1_def alloc_def closedFrom_def newNode_def)
      have n1: "n0 \<le> nextRef st1" "nextRef st1 = Suc (nextRef st)"
        using Cons.prems(2) by (simp_all add: st1_def alloc_def)
      have r1: "\<forall>k r. m1 k = Some r \<longrightarrow> n0 \<le> r"
        using Cons.prems(2,4) by (auto simp: m1_def)
      have s1: "sameBelow n0 st st1" "console st1 = console st"
        using Cons.prems(2) by (auto simp: st1_def alloc_def sameBelow_def)
      from Cons.IH [OF run n1(1) c1 r1] s1 n1(2) show ?thesis
        by (auto simp: sameBelow_def)
    next
      case (Node nd)
      with Some Cons.prems show ?thesis by (auto simp: sameBelow_def)
    next
      case (Array es)
      with Some Cons.prems show ?thesis by (auto simp: sameBelow_def)
    qed
  qed
qed

lemma linkNodes_frame:
  assumes "linkNodes elems m rt st = (res, st')"
    and "closedFrom n0 st" and "\<forall>k r. m k = Some r \<longrightarrow> n0 \<le> r"
    and "\<forall>r. rt = Some r \<longrightarrow> n0 \<le> r"
  shows "closedFrom n0 st' \<and> sameBelow n0 st st' \<and> nextRef st' = nextRef st
         \<and> console st' = console st
         \<and> (\<forall>r. res = Inr (Some r) \<longrightarrow> n0 \<le> r)"
  using assms
proof (induction elems arbitrary: rt st)
  case Nil
  then show ?case by (auto simp: sameBelow_def)
next
  case (Cons a rest)
  show ?case
  proof (cases "\<exists>sp node. heap st a = Some (Span sp) \<and> m (spanId sp) = Some node")
    case False
    with Cons.prems(1) have "st' = st" "\<forall>r. res \<noteq> Inr (Some r)"
      by (auto split: option.splits obj.splits)
    with Cons.prems show ?thesis by (auto simp: sameBelow_def)
  next
    case True
    then obtain sp node where a: "heap st a = Some (Span sp)" and nd: "m (spanId sp) = Some node"
      by blast
    have node: "n0 \<le> node" using Cons.prems(3) nd by blast
    show ?thesis
    proof (cases "truthy (parentSpanId sp) \<and> m (the (parentSpanId sp)) \<noteq> None")
      case link: True
      then obtain parent where par: "m (the (parentSpanId sp)) = Some parent" by auto
      have parent: "n0 \<le> parent" using Cons.prems(3) par by blast
      show ?thesis
      proof (cases "\<exists>p. heap st parent = Some (Node p)")
        case False
        with Cons.prems(1) a nd link par have "st' = st" "\<forall>r. res \<noteq> Inr (Some r)"
          by (auto split: option.splits obj.splits)
        with Cons.prems show ?thesis by (auto simp: sameBelow_def)
      next
        case True
        then obtain p where p: "heap st parent = Some (Node p)" by blast
        define st1 where
          "st1 = st\<lparr>heap := (heap st)(parent \<mapsto> Node (p\<lparr>children := children p @ [node]\<rparr>))\<rparr>"
        have run: "linkNodes rest m rt st1 = (res, st')"
          using Cons.prems(1) a nd link par p by (simp add: st1_def)
        have "\<forall>c \<in> set (children p). n0 \<le> c"
          using Cons.prems(2) parent p by (auto simp: closedFrom_def)
        then have c1: "closedFrom n0 st1"
          unfolding st1_def using Cons.prems(2) node by (intro closedFrom_update) auto
        have s1: "sameBelow n0 st st1" "nextRef st1 = nextRef st" "console st1 = console st"
          using parent by (auto simp: st1_def sameBelow_def)
        from Cons.IH [OF run c1 Cons.prems(3,4)] s1 show ?thesis
          by (auto simp: sameBelow_def)
      qed
    next
      case nolink: False
      show ?thesis
      proof (cases "truthy (parentSpanId sp)")
        case True
        with nolink Cons.prems(1) a nd have run: "linkNodes rest m rt st = (res, st')"
          by auto
        from Cons.IH [OF run Cons.prems(2,3,4)] show ?thesis .
      next
        case False
        with Cons.prems(1) a nd have run: "linkNodes rest m (Some node) st = (res, st')"
          by auto
        from Cons.IH [OF run Cons.prems(2,3)] node show ?thesis by simp
      qed
    qed
  qed
qed

lemma forEach_invariant:
  assumes "forEach f cs i s = (res, s')" and "P s"
    and "\<And>c j t r t'. c \<in> set cs \<Longrightarrow> P t \<Longrightarrow> f c j t = (r, t') \<Longrightarrow> P t'"
  shows "P s'"
  using assms
proof (induction cs arbitrary: i s)
  case Nil
  then show ?case by simp
next
  case (Cons c cs)
  obtain r t where step: "f c i s = (r, t)" by (cases "f c i s")
  have Pt: "P t" using Cons.prems(2,3) step by (meson list.set_intros(1))
  show ?case
  proof (cases r)
    case (Inl e)
    with Cons.prems(1) step Pt show ?thesis by simp
  next
    case (Inr u)
    with Cons.prems(1) step have "forEach f cs (Suc i) t = (res, s')" by simp
    from Cons.IH [OF this Pt] Cons.prems(3) show ?thesis by (meson list.set_intros(2))
  qed
qed

lemma sortChildren_frame:
  assumes "sortChildren depth node i st = (res, st')" and "closedFrom n0 st" and "n0 \<le> node"
  shows "closedFrom n0 st' \<and> sameBelow n0 st st' \<and> nextRef st' = nextRef st
         \<and> console st' = console st"
  using assms
proof (induction depth arbitrary: node i st res st')
  case 0
  then show ?case by (auto simp: sameBelow_def)
next
  case (Suc depth)
  show ?case
  proof (cases "\<exists>n. heap st node = Some (Node n)")
    case False
    with Suc.prems(1) have "st' = st" by (auto split: option.splits obj.splits)
    with Suc.prems show ?thesis by (auto simp: sameBelow_def)
  next
    case True
    then obtain n where n: "heap st node = Some (Node n)" by blast
    define kids where "kids = sort_key (startTimeAt st) (children n)"
    define st1 where "st1 = st\<lparr>heap := (heap st)(node \<mapsto> Node (n\<lparr>children := kids\<rparr>))\<rparr>"
    define P where "P t \<longleftrightarrow> closedFrom n0 t \<and> sameBelow n0 st t \<and> nextRef t = nextRef st
         \<and> console t = console st" for t
    have run: "forEach (\<lambda>c j s. sortChildren depth c j s) kids 0 st1 = (res, st')"
      using Suc.prems(1) n by (simp add: kids_def st1_def Let_def)
    have kids: "\<forall>c \<in> set kids. n0 \<le> c"
      using Suc.prems(2,3) n by (auto simp: closedFrom_def kids_def)
    then have "closedFrom n0 st1"
      unfolding st1_def using Suc.prems(2) by (intro closedFrom_update) auto
    moreover have "sameBelow n0 st st1" "nextRef st1 = nextRef st" "console st1 = console st"
      using Suc.prems(3) by (auto simp: st1_def sameBelow_def)
    ultimately have P1: "P st1" by (simp add: P_def)
    have "P st'"
    proof (rule forEach_invariant [where P = P, OF run P1])
      fix c j t r t'
      assume c: "c \<in> set kids" and t: "P t" and step: "sortChildren depth c j t = (r, t')"
      from t have ct: "closedFrom n0 t" by (simp add: P_def)
      from kids c have "n0 \<le> c" by blast
      from Suc.IH [OF step ct this] t show "P t'"
        by (auto simp: P_def sameBelow_def)
    qed
    then show ?thesis by (simp add: P_def)
  qed
qed

lemma closedFrom_initial:
  assumes "\<forall>r. nextRef st \<le> r \<longrightarrow> heap st r = None"
  shows "closedFrom (nextRef st) st"
  using assms by (simp add: closedFrom_def)

lemma buildSpanTree_frame:
  assumes "buildSpanTree depth spans st = (res, st')"
    and "\<forall>r. nextRef st \<le> r \<longrightarrow> heap st r = None"
  shows "sameBelow (nextRef st) st st' \<and> console st' = console st"
proof (cases "\<exists>elems. heap st spans = Some (Array elems) \<and> elems \<noteq> []")
  case False
  with assms(1) have "st' = st"
    by (auto simp: buildSpanTree_def split: option.splits obj.splits if_splits)
  then show ?thesis by (simp add: sameBelow_def)
next
  case True
  then obtain elems where el: "heap st spans = Some (Array elems)" "elems \<noteq> []" by blast
  define n0 where "n0 = nextRef st"
  obtain r1 st1 where cn: "createNodes elems Map.empty st = (r1, st1)"
    by (cases "createNodes elems Map.empty st")
  have f1: "closedFrom n0 st1" "sameBelow n0 st st1" "n0 \<le> nextRef st1"
    "console st1 = console st" "\<forall>m'. r1 = Inr m' \<longrightarrow> (\<forall>k r. m' k = Some r \<longrightarrow> n0 \<le> r)"
    using createNodes_frame [OF cn, of n0] closedFrom_initial [OF assms(2)]
    by (simp_all add: n0_def)
  show ?thesis
  proof (cases r1)
    case (Inl e)
    with assms(1) el cn have "st' = st1" by (simp add: buildSpanTree_def)
    with f1 show ?thesis by (simp add: n0_def)
  next
    case (Inr spanMap)
    obtain r2 st2 where ln: "linkNodes elems spanMap None st1 = (r2, st2)"
      by (cases "linkNodes elems spanMap None st1")
    have f2: "closedFrom n0 st2" "sameBelow n0 st1 st2" "nextRef st2 = nextRef st1"
      "console st2 = console st1" "\<forall>r. r2 = Inr (Some r) \<longrightarrow> n0 \<le> r"
      using linkNodes_frame [OF ln f1(1)] f1(5) Inr by simp_all
    have s2: "sameBelow n0 st st2" using f1(2) f2(2) by (rule sameBelow_trans)
    show ?thesis
    proof (cases r2)
      case (Inl e)
      with assms(1) el cn ln Inr have "st' = st2" by (simp add: buildSpanTree_def)
      with s2 f1 f2 show ?thesis by (simp add: n0_def)
    next
      case rt: (Inr rt)
      show ?thesis
      proof (cases rt)
        case (Some r)
        obtain r3 st3 where sc: "sortChildren depth r 0 st2 = (r3, st3)"
          by (cases "sortChildren depth r 0 st2")
        have "n0 \<le> r" using f2(5) rt Some by simp
        from sortChildren_frame [OF sc f2(1) this]
        have f3: "sameBelow n0 st2 st3" "console st3 = console st2" by simp_all
        have "st' = st3"
          using assms(1) el cn ln Inr rt Some sc
          by (cases r3) (simp_all add: buildSpanTree_def)
        with sameBelow_trans [OF s2 f3(1)] f1 f2 f3 show ?thesis by (simp add: n0_def)
      next
        case None
        define st4 where "st4 = (snd (alloc (Array elems) st2))
          \<lparr>heap := (heap (snd (alloc (Array elems) st2)))
             (fst (alloc (Array elems) st2) \<mapsto>
                Array (sort_key (startTimeAt (snd (alloc (Array elems) st2))) elems))\<rparr>"
        have "st' = st4"
          using assms(1) el cn ln Inr rt None
          by (auto simp: buildSpanTree_def st4_def Let_def split: prod.splits list.splits
              option.splits obj.splits)
        moreover have "sameBelow n0 st2 st4" "console st4 = console st2"
          using f1(3) f2(3) by (auto simp: st4_def alloc_def sameBelow_def)
        ultimately show ?thesis
          using sameBelow_trans [OF s2] f1 f2 by (simp add: n0_def)
      qed
    qed
  qed
qed

lemma renderTrace_frame:
  assumes "renderTrace depth traceId spans st = (res, st')"
    and "\<forall>r. nextRef st \<le> r \<longrightarrow> heap st r = None"
  shows "sameBelow (nextRef st) st st'"
proof -
  obtain r1 st1 where b: "buildSpanTree depth spans st = (r1, st1)"
    by (cases "buildSpanTree depth spans st")
  from buildSpanTree_frame [OF b assms(2)] have s1: "sameBelow (nextRef st) st st1" by simp
  have "heap st' = heap st1"
    using assms(1) b
    by (auto simp: renderTrace_def console_log_def Let_def
        split: sum.splits option.splits obj.splits)
  with s1 show ?thesis by (simp add: sameBelow_def)
qed

lemma wellFormed_below:
  assumes "wellFormed st spans elems ss"
  shows "spans < nextRef st" and "\<forall>a \<in> set elems. a < nextRef st"
proof -
  from assms have fr: "\<forall>r. nextRef st \<le> r \<longrightarrow> heap st r = None"
    and sp: "heap st spans = Some (Array elems)"
    and el: "map (heap st) elems = map (\<lambda>s. Some (Span s)) ss"
    by (simp_all add: wellFormed_def)
  from fr sp show "spans < nextRef st" by (metis not_le option.distinct(1))
  show "\<forall>a \<in> set elems. a < nextRef st"
  proof
    fix a assume "a \<in> set elems"
    then obtain i where i: "i < length elems" "elems ! i = a" by (auto simp: in_set_conv_nth)
    from el have "length elems = length ss" by (metis length_map)
    with i el have "heap st a = Some (Span (ss ! i))"
      by (metis nth_map)
    with fr show "a < nextRef st" by (metis not_le option.distinct(1))
  qed
qed

lemma wellFormed_sameBelow:
  assumes "wellFormed st spans elems ss" and "sameBelow (nextRef st) st st'"
  shows "heap st' spans = Some (Array elems) \<and> map (heap st') elems = map (\<lambda>s. Some (Span s)) ss"
proof -
  from wellFormed_below [OF assms(1)] assms(2)
  have "heap st' spans = heap st spans" "\<forall>a \<in> set elems. heap st' a = heap st a"
    by (simp_all add: sameBelow_def)
  then have "heap st' spans = heap st spans" "map (heap st') elems = map (heap st) elems"
    by simp_all
  with assms(1) show ?thesis by (simp add: wellFormed_def)
qed

lemma wellFormed_loadSpans: "wellFormed (loadSpans ss) (length ss) [0..<length ss] ss"
  by (auto simp: wellFormed_def loadSpans_def intro: nth_equalityI)

text \<open>
  Claim C10. \<^verbatim>\<open>buildSpanTree\<close> and \<^verbatim>\<open>renderTrace\<close> leave the input as it was: after the
  call, whether it returned or threw and whatever the stack depth, the caller's array
  holds the same references and every span object in it is unchanged. The nodes are new
  objects, and the fallback sorts a new array.
\<close>

theorem input_unchanged:
  assumes "wellFormed st spans elems ss"
  shows "heap (snd (buildSpanTree depth spans st)) spans = Some (Array elems)
       \<and> map (heap (snd (buildSpanTree depth spans st))) elems = map (\<lambda>s. Some (Span s)) ss
       \<and> heap (snd (renderTrace depth traceId spans st)) spans = Some (Array elems)
       \<and> map (heap (snd (renderTrace depth traceId spans st))) elems
           = map (\<lambda>s. Some (Span s)) ss"
proof -
  from assms have fr: "\<forall>r. nextRef st \<le> r \<longrightarrow> heap st r = None"
    by (simp add: wellFormed_def)
  have "sameBelow (nextRef st) st (snd (buildSpanTree depth spans st))"
    using buildSpanTree_frame [OF _ fr] by (metis prod.collapse)
  moreover have "sameBelow (nextRef st) st (snd (renderTrace depth traceId spans st))"
    using renderTrace_frame [OF _ fr] by (metis prod.collapse)
  ultimately show ?thesis
    using wellFormed_sameBelow [OF assms] by blast
qed

lemma wellFormed_rootWithTwoChildren:
  "wellFormed (loadSpans rootWithTwoChildren) 3 [0, 1, 2] rootWithTwoChildren"
  by (simp add: wellFormed_def loadSpans_def rootWithTwoChildren_def)

theorem input_unchanged_witness:
  "wellFormed (loadSpans rootWithTwoChildren) 3 [0, 1, 2] rootWithTwoChildren
   \<and> heap (snd (buildSpanTree 5 3 (loadSpans rootWithTwoChildren))) 3 = Some (Array [0, 1, 2])
   \<and> map (heap (snd (renderTrace 5 (ascii ''0af7651916cd43dd'') 3
                       (loadSpans rootWithTwoChildren)))) [0, 1, 2]
       = map (\<lambda>s. Some (Span s)) rootWithTwoChildren"
  using input_unchanged [OF wellFormed_rootWithTwoChildren] wellFormed_rootWithTwoChildren
  by blast

subsection \<open>The two loops on spans with unique ids\<close>

lemma distinct_ids_index:
  assumes "distinct (map spanId ss)" and "i < length ss" and "j < length ss"
    and "spanId (ss ! i) = spanId (ss ! j)"
  shows "i = j"
  using assms by (metis length_map nth_eq_iff_index_eq nth_map)

lemma createNodes_distinct:
  assumes "map (heap st) elems = map (\<lambda>s. Some (Span s)) ss"
    and "\<forall>a \<in> set elems. a < nextRef st"
    and "distinct (map spanId ss)"
  shows "\<exists>m' st'. createNodes elems m st = (Inr m', st')
      \<and> nextRef st' = nextRef st + length ss \<and> console st' = console st
      \<and> (\<forall>r. heap st' r =
            (if nextRef st \<le> r \<and> r < nextRef st + length ss
             then Some (Node (newNode (ss ! (r - nextRef st)))) else heap st r))
      \<and> (\<forall>i. i < length ss \<longrightarrow> m' (spanId (ss ! i)) = Some (nextRef st + i))
      \<and> (\<forall>k. k \<notin> spanId ` set ss \<longrightarrow> m' k = m k)"
  using assms
proof (induction elems arbitrary: ss m st)
  case Nil
  then show ?case by auto
next
  case (Cons a rest)
  from Cons.prems(1) obtain s0 ss' where ss: "ss = s0 # ss'"
    and a: "heap st a = Some (Span s0)"
    and rest: "map (heap st) rest = map (\<lambda>s. Some (Span s)) ss'"
    by (cases ss) auto
  define st1 where "st1 = snd (alloc (Node (newNode s0)) st)"
  define m1 where "m1 = m(spanId s0 \<mapsto> nextRef st)"
  have step: "createNodes (a # rest) m st = createNodes rest m1 st1"
    using a by (simp add: alloc_def st1_def m1_def)
  have h1: "heap st1 = (heap st)(nextRef st \<mapsto> Node (newNode s0))"
    and n1: "nextRef st1 = Suc (nextRef st)" and c1: "console st1 = console st"
    by (simp_all add: st1_def alloc_def)
  have "\<forall>x \<in> set rest. heap st1 x = heap st x"
    using Cons.prems(2) by (auto simp: h1)
  then have rest1: "map (heap st1) rest = map (\<lambda>s. Some (Span s)) ss'"
    using rest by (metis (no_types, lifting) map_eq_conv)
  have lt1: "\<forall>a \<in> set rest. a < nextRef st1"
    using Cons.prems(2) by (auto simp: n1)
  have d1: "distinct (map spanId ss')" and notin: "spanId s0 \<notin> spanId ` set ss'"
    using Cons.prems(3) ss by auto
  from Cons.IH [OF rest1 lt1 d1, of m1]
  obtain m' st' where run: "createNodes rest m1 st1 = (Inr m', st')"
    and nx: "nextRef st' = nextRef st1 + length ss'" and co: "console st' = console st1"
    and hp: "\<forall>r. heap st' r =
            (if nextRef st1 \<le> r \<and> r < nextRef st1 + length ss'
             then Some (Node (newNode (ss' ! (r - nextRef st1)))) else heap st1 r)"
    and mp: "\<forall>i. i < length ss' \<longrightarrow> m' (spanId (ss' ! i)) = Some (nextRef st1 + i)"
    and mo: "\<forall>k. k \<notin> spanId ` set ss' \<longrightarrow> m' k = m1 k"
    by blast
  have heap': "heap st' r =
            (if nextRef st \<le> r \<and> r < nextRef st + length ss
             then Some (Node (newNode (ss ! (r - nextRef st)))) else heap st r)" for r
  proof (cases "r = nextRef st")
    case True
    then show ?thesis using hp by (simp add: n1 h1 ss)
  next
    case False
    then show ?thesis
      using hp by (auto simp: n1 h1 ss nth_Cons' Suc_diff_Suc less_Suc_eq_le)
  qed
  have map': "m' (spanId (ss ! i)) = Some (nextRef st + i)" if "i < length ss" for i
  proof (cases i)
    case 0
    then show ?thesis using mo notin by (simp add: ss m1_def)
  next
    case (Suc i')
    then show ?thesis using mp that by (simp add: ss n1)
  qed
  have other: "m' k = m k" if "k \<notin> spanId ` set ss" for k
    using that mo by (auto simp: ss m1_def)
  have nx': "nextRef st' = nextRef st + length ss" and co': "console st' = console st"
    using nx co by (simp_all add: n1 c1 ss)
  show ?case
    unfolding step using run nx' co' heap' map' other by blast
qed

lemma childIndices_Suc:
  "childIndices ss (Suc k) i =
     childIndices ss k i @ (if isChildOf (ss ! k) (ss ! i) then [k] else [])"
  by (simp add: childIndices_def)

lemma treeState_cong:
  assumes "treeState n0 ss kids st" and "\<forall>i. i < length ss \<longrightarrow> kids' i = kids i"
    and "\<forall>i. i < length ss \<longrightarrow> heap st' (n0 + i) = heap st (n0 + i)"
  shows "treeState n0 ss kids' st'"
  using assms by (simp add: treeState_def)

lemma treeState_update:
  assumes "treeState n0 ss kids st" and "i < length ss"
    and "\<forall>i'. i' < length ss \<and> i' \<noteq> i \<longrightarrow> kids' i' = kids i'"
  shows "treeState n0 ss kids'
           (st\<lparr>heap := (heap st)
              (n0 + i \<mapsto> Node ((newNode (ss ! i))\<lparr>children := map (\<lambda>j. n0 + j) (kids' i)\<rparr>))\<rparr>)"
  using assms by (simp add: treeState_def)

lemma isChildOf_unique:
  assumes "distinct (map spanId ss)" and "i < length ss" and "i' < length ss"
    and "isChildOf c (ss ! i)" and "isChildOf c (ss ! i')"
  shows "i = i'"
  using assms distinct_ids_index [of ss i i'] by (simp add: isChildOf_def)

lemma linkNodes_distinct:
  assumes el: "\<forall>j. j < length ss \<longrightarrow> heap st (elems ! j) = Some (Span (ss ! j))"
    and len: "length elems = length ss"
    and lt: "\<forall>a \<in> set elems. a < n0"
    and mp: "\<forall>i. i < length ss \<longrightarrow> m (spanId (ss ! i)) = Some (n0 + i)"
    and mo: "\<forall>k. k \<notin> spanId ` set ss \<longrightarrow> m k = None"
    and d: "distinct (map spanId ss)"
    and ts: "treeState n0 ss (childIndices ss k) st"
    and k: "k \<le> length ss"
  shows "\<exists>st'. linkNodes (drop k elems) m rt st =
          (Inr (foldl (\<lambda>r j. if truthy (parentSpanId (ss ! j)) then r else Some (n0 + j))
                  rt [k..<length ss]), st')
      \<and> treeState n0 ss (childIndices ss (length ss)) st'
      \<and> (\<forall>r. r < n0 \<or> n0 + length ss \<le> r \<longrightarrow> heap st' r = heap st r)
      \<and> nextRef st' = nextRef st \<and> console st' = console st"
  using el ts k
proof (induction "length ss - k" arbitrary: k st rt)
  case 0
  then have "k = length ss" by simp
  with "0.prems" len show ?case by simp
next
  case (Suc d')
  then have kn: "k < length ss" by simp
  define sp where "sp = ss ! k"
  define f where "f = (\<lambda>r j. if truthy (parentSpanId (ss ! j)) then r else Some (n0 + j))"
  have drop: "drop k elems = elems ! k # drop (Suc k) elems"
    using kn len by (simp add: Cons_nth_drop_Suc)
  have a: "heap st (elems ! k) = Some (Span sp)"
    using Suc.prems(1) kn by (simp add: sp_def)
  have node: "m (spanId sp) = Some (n0 + k)"
    using mp kn by (simp add: sp_def)
  have upt: "[k..<length ss] = k # [Suc k..<length ss]"
    using kn by (simp add: upt_conv_Cons)
  have meas: "d' = length ss - Suc k" using Suc.hyps(2) by simp
  have sk: "Suc k \<le> length ss" using kn by simp
  have IH: "\<exists>st'. linkNodes (drop (Suc k) elems) m rt' st1 =
          (Inr (foldl f rt' [Suc k..<length ss]), st')
      \<and> treeState n0 ss (childIndices ss (length ss)) st'
      \<and> (\<forall>r. r < n0 \<or> n0 + length ss \<le> r \<longrightarrow> heap st' r = heap st1 r)
      \<and> nextRef st' = nextRef st1 \<and> console st' = console st1"
    if "\<forall>j. j < length ss \<longrightarrow> heap st1 (elems ! j) = Some (Span (ss ! j))"
      and "treeState n0 ss (childIndices ss (Suc k)) st1" for st1 rt'
    using Suc.hyps(1) [OF meas that sk] by (simp add: f_def)
  show ?case
  proof (cases "truthy (parentSpanId sp)")
    case False
    have same: "\<forall>i. i < length ss \<longrightarrow> childIndices ss (Suc k) i = childIndices ss k i"
      using False by (simp add: childIndices_Suc isChildOf_def sp_def)
    have ts1: "treeState n0 ss (childIndices ss (Suc k)) st"
      using treeState_cong [OF Suc.prems(2) same] by simp
    have step: "linkNodes (drop k elems) m rt st = linkNodes (drop (Suc k) elems) m (Some (n0 + k)) st"
      using a node False by (simp add: drop)
    have fold: "foldl f rt [k..<length ss] = foldl f (Some (n0 + k)) [Suc k..<length ss]"
      using False by (simp add: upt f_def sp_def)
    from IH [OF Suc.prems(1) ts1, of "Some (n0 + k)"] show ?thesis
      unfolding step f_def [symmetric] fold by blast
  next
    case True
    then obtain pid where pid: "parentSpanId sp = Some pid" and ne: "pid \<noteq> []"
      by (auto simp: truthy_def split: option.splits)
    have fold: "foldl f rt [k..<length ss] = foldl f rt [Suc k..<length ss]"
      using True by (simp add: upt f_def sp_def)
    show ?thesis
    proof (cases "m pid")
      case None
      have "\<not> isChildOf sp (ss ! i)" if "i < length ss" for i
        using mp that None pid by (auto simp: isChildOf_def)
      then have same: "\<forall>i. i < length ss \<longrightarrow> childIndices ss (Suc k) i = childIndices ss k i"
        by (simp add: childIndices_Suc sp_def)
      have ts1: "treeState n0 ss (childIndices ss (Suc k)) st"
        using treeState_cong [OF Suc.prems(2) same] by simp
      have step: "linkNodes (drop k elems) m rt st = linkNodes (drop (Suc k) elems) m rt st"
        using a node True None pid by (simp add: drop)
      from IH [OF Suc.prems(1) ts1, of rt] show ?thesis
        unfolding step f_def [symmetric] fold by blast
    next
      case (Some parent)
      with mo have "pid \<in> spanId ` set ss" by force
      then obtain i where i: "i < length ss" "spanId (ss ! i) = pid"
        by (auto simp: in_set_conv_nth)
      with mp Some have parent: "parent = n0 + i" by auto
      have child: "isChildOf sp (ss ! i)"
        using True pid i by (simp add: isChildOf_def)
      have others: "\<forall>i'. i' < length ss \<and> i' \<noteq> i \<longrightarrow>
          childIndices ss (Suc k) i' = childIndices ss k i'"
        using isChildOf_unique [OF d _ i(1) _ child]
        by (auto simp: childIndices_Suc sp_def)
      have this_one: "childIndices ss (Suc k) i = childIndices ss k i @ [k]"
        using child by (simp add: childIndices_Suc sp_def)
      define p where "p = (newNode (ss ! i))\<lparr>children := map (\<lambda>j. n0 + j) (childIndices ss k i)\<rparr>"
      have hp: "heap st parent = Some (Node p)"
        using Suc.prems(2) i(1) by (simp add: treeState_def parent p_def)
      define st1 where
        "st1 = st\<lparr>heap := (heap st)(parent \<mapsto> Node (p\<lparr>children := children p @ [n0 + k]\<rparr>))\<rparr>"
      have step: "linkNodes (drop k elems) m rt st = linkNodes (drop (Suc k) elems) m rt st1"
        using a node True Some pid hp by (simp add: drop st1_def)
      have p': "p\<lparr>children := children p @ [n0 + k]\<rparr>
          = (newNode (ss ! i))\<lparr>children := map (\<lambda>j. n0 + j) (childIndices ss (Suc k) i)\<rparr>"
        by (simp add: p_def this_one)
      have ts1: "treeState n0 ss (childIndices ss (Suc k)) st1"
        unfolding st1_def p' parent
        using treeState_update [OF Suc.prems(2) i(1) others] .
      have "elems ! j \<noteq> n0 + i" if "j < length ss" for j
        using lt len that by (metis nth_mem not_add_less1)
      then have el1: "\<forall>j. j < length ss \<longrightarrow> heap st1 (elems ! j) = Some (Span (ss ! j))"
        using Suc.prems(1) by (simp add: st1_def parent)
      have fr: "\<forall>r. r < n0 \<or> n0 + length ss \<le> r \<longrightarrow> heap st1 r = heap st r"
        and nc: "nextRef st1 = nextRef st" "console st1 = console st"
        using i(1) by (auto simp: st1_def parent)
      from IH [OF el1 ts1, of rt] fr nc show ?thesis
        unfolding step f_def [symmetric] fold by auto
    qed
  qed
qed

subsection \<open>Paths up the parent links\<close>

lemma upchain_less: "upchain ss ch \<Longrightarrow> x \<in> set ch \<Longrightarrow> x < length ss"
  by (induction ss ch rule: upchain.induct) auto

lemma upchain_parent_in:
  "distinct (map spanId ss) \<Longrightarrow> upchain ss ch \<Longrightarrow> x \<in> set (butlast ch) \<Longrightarrow> y < length ss
   \<Longrightarrow> isChildOf (ss ! x) (ss ! y) \<Longrightarrow> y \<in> set ch"
proof (induction ss ch rule: upchain.induct)
  case (1 ss)
  then show ?case by simp
next
  case (2 ss r)
  then show ?case by simp
next
  case (3 ss c p rest)
  show ?case
  proof (cases "x = c")
    case True
    from "3.prems"(2) have cp: "isChildOf (ss ! c) (ss ! p)" and p: "p < length ss"
      using upchain_less [of ss "p # rest" p] by simp_all
    from isChildOf_unique [OF "3.prems"(1,4) p] "3.prems"(5) True cp
    show ?thesis by auto
  next
    case False
    with "3.prems" "3.IH" show ?thesis by auto
  qed
qed

lemma parentIndex_child:
  assumes d: "distinct (map spanId ss)" and i: "i < length ss"
    and c: "isChildOf (ss ! j) (ss ! i)"
  shows "parentIndex ss j = Some i"
proof -
  have "\<not> isChildOf (ss ! j) (ss ! i')" if "i' < i" for i'
    using isChildOf_unique [OF d _ i _ c, of i'] that i by auto
  with i c show ?thesis
    unfolding parentIndex_def find_Some_iff by (intro exI [of _ i]) simp
qed

lemma parentIndex_parentless:
  "\<not> truthy (parentSpanId (ss ! j)) \<Longrightarrow> parentIndex ss j = None"
  by (simp add: parentIndex_def find_None_iff isChildOf_def)

lemma parentless_not_ownAncestor:
  assumes "\<not> truthy (parentSpanId (ss ! j))"
  shows "\<not> ownAncestor ss j"
proof
  assume "ownAncestor ss j"
  then obtain k where "1 \<le> k" "ancestor ss k j = Some j"
    by (auto simp: ownAncestor_def)
  with parentIndex_parentless [OF assms] show False by (cases k) simp_all
qed

lemma upchain_ancestor:
  "distinct (map spanId ss) \<Longrightarrow> upchain ss (c # rest)
   \<Longrightarrow> ancestor ss (length rest) c = Some (last (c # rest))"
proof (induction rest arbitrary: c)
  case Nil
  show ?case by simp
next
  case (Cons p rest)
  from Cons.prems(2) have cp: "isChildOf (ss ! c) (ss ! p)" and up: "upchain ss (p # rest)"
    by simp_all
  have p: "p < length ss" using upchain_less [OF up] by simp
  from parentIndex_child [OF Cons.prems(1) p cp] Cons.IH [OF Cons.prems(1) up]
  show ?case by simp
qed

lemma upchain_length:
  assumes "upchain ss ch" and "distinct ch"
  shows "length ch \<le> length ss"
proof -
  have "set ch \<subseteq> {..<length ss}" using upchain_less [OF assms(1)] by auto
  then have "card (set ch) \<le> card {..<length ss}" by (intro card_mono) auto
  with assms(2) show ?thesis by (simp add: distinct_card)
qed

lemma upchain_extend:
  assumes d: "distinct (map spanId ss)"
    and ch: "upchain ss (i # rest)" and dc: "distinct (i # rest)"
    and top: "\<not> ownAncestor ss (last (i # rest))"
    and j: "j < length ss" and c: "isChildOf (ss ! j) (ss ! i)"
  shows "upchain ss (j # i # rest) \<and> distinct (j # i # rest)"
proof -
  have i: "i < length ss" using upchain_less [OF ch] by simp
  have "j \<notin> set (i # rest)"
  proof
    assume mem: "j \<in> set (i # rest)"
    show False
    proof (cases "j = last (i # rest)")
      case True
      from upchain_ancestor [OF d ch] parentIndex_child [OF d i c]
      have "ancestor ss (Suc (length rest)) j = Some j" by (simp add: True)
      moreover have "Suc (length rest) \<le> length ss"
        using upchain_length [OF ch dc] by simp
      ultimately have "ownAncestor ss j"
        unfolding ownAncestor_def by (intro bexI [of _ "Suc (length rest)"]) simp_all
      with top True show False by simp
    next
      case False
      with mem have inner: "j \<in> set (butlast (i # rest))"
        by (metis append_butlast_last_id list.distinct(1) rotate1.simps(2) set_ConsD
            set_rotate1)
      show False
      proof (cases rest)
        case Nil
        with inner show False by simp
      next
        case (Cons p rest')
        from ch Cons have cp: "isChildOf (ss ! i) (ss ! p)" and up: "upchain ss (p # rest')"
          by simp_all
        have p: "p < length ss" using upchain_less [OF up] by simp
        show False
        proof (cases "j = i")
          case True
          with c cp isChildOf_unique [OF d i p] have "i = p" by auto
          with dc Cons show False by simp
        next
          case False
          with inner Cons have "j \<in> set (butlast (p # rest'))" by simp
          from upchain_parent_in [OF d up this i c] dc Cons show False by simp
        qed
      qed
    qed
  qed
  with ch dc j c show ?thesis by simp
qed

subsection \<open>Sorting the children of a tree\<close>

lemma forEach_success:
  assumes "P s"
    and "\<And>c j t. c \<in> set cs \<Longrightarrow> P t \<Longrightarrow> \<exists>t'. f c j t = (Inr (), t') \<and> P t'"
  shows "\<exists>s'. forEach f cs i s = (Inr (), s') \<and> P s'"
  using assms
proof (induction cs arbitrary: i s)
  case Nil
  then show ?case by simp
next
  case (Cons c cs)
  from Cons.prems(2) [of c s i] Cons.prems(1)
  obtain t where t: "f c i s = (Inr (), t)" "P t" by auto
  from Cons.IH [OF t(2), of "Suc i"] Cons.prems(2)
  obtain s' where "forEach f cs (Suc i) t = (Inr (), s')" "P s'" by auto
  with t(1) show ?case by simp
qed

lemma insort_key_map:
  "insort_key f (g x) (map g xs) = map g (insort_key (\<lambda>y. f (g y)) x xs)"
  by (induction xs) auto

lemma sort_key_map: "sort_key f (map g xs) = map g (sort_key (\<lambda>y. f (g y)) xs)"
  by (induction xs) (simp_all add: insort_key_map)

lemma sortChildren_tree:
  assumes d: "distinct (map spanId ss)"
  shows "treeState n0 ss kids st
    \<Longrightarrow> \<forall>i. i < length ss \<longrightarrow> mset (kids i) = mset (childIndices ss (length ss) i)
    \<Longrightarrow> upchain ss (i # rest) \<Longrightarrow> distinct (i # rest)
    \<Longrightarrow> \<not> ownAncestor ss (last (i # rest))
    \<Longrightarrow> length ss < depth + length (i # rest)
    \<Longrightarrow> \<exists>kids' st'. sortChildren depth (n0 + i) idx st = (Inr (), st')
          \<and> treeState n0 ss kids' st'
          \<and> (\<forall>i. i < length ss \<longrightarrow> mset (kids' i) = mset (childIndices ss (length ss) i))
          \<and> (\<forall>r. r < n0 \<or> n0 + length ss \<le> r \<longrightarrow> heap st' r = heap st r)
          \<and> nextRef st' = nextRef st \<and> console st' = console st"
proof (induction depth arbitrary: i rest idx st kids)
  case 0
  with upchain_length [of ss "i # rest"] show ?case by simp
next
  case (Suc depth)
  have i: "i < length ss" using upchain_less [OF Suc.prems(3)] by simp
  define ks where "ks = sort_key (\<lambda>j. startTimeAt st (n0 + j)) (kids i)"
  define kids1 where "kids1 = kids(i := ks)"
  define nd where "nd = (newNode (ss ! i))\<lparr>children := map (\<lambda>j. n0 + j) (kids i)\<rparr>"
  define st1 where
    "st1 = st\<lparr>heap := (heap st)(n0 + i \<mapsto> Node (nd\<lparr>children := map (\<lambda>j. n0 + j) ks\<rparr>))\<rparr>"
  define P where "P t \<longleftrightarrow> (\<exists>kids'. treeState n0 ss kids' t
          \<and> (\<forall>i. i < length ss \<longrightarrow> mset (kids' i) = mset (childIndices ss (length ss) i))
          \<and> (\<forall>r. r < n0 \<or> n0 + length ss \<le> r \<longrightarrow> heap t r = heap st r)
          \<and> nextRef t = nextRef st \<and> console t = console st)" for t
  have hn: "heap st (n0 + i) = Some (Node nd)"
    using Suc.prems(1) i by (simp add: treeState_def nd_def)
  have sorted: "sort_key (startTimeAt st) (children nd) = map (\<lambda>j. n0 + j) ks"
    by (simp add: nd_def ks_def sort_key_map)
  have step: "sortChildren (Suc depth) (n0 + i) idx st
      = forEach (\<lambda>c j s. sortChildren depth c j s) (map (\<lambda>j. n0 + j) ks) 0 st1"
    using hn by (simp add: sorted st1_def Let_def)
  have nd1: "nd\<lparr>children := map (\<lambda>j. n0 + j) ks\<rparr>
      = (newNode (ss ! i))\<lparr>children := map (\<lambda>j. n0 + j) (kids1 i)\<rparr>"
    by (simp add: nd_def kids1_def)
  have ts1: "treeState n0 ss kids1 st1"
    unfolding st1_def nd1
    by (rule treeState_update [OF Suc.prems(1) i]) (simp add: kids1_def)
  have perm1: "\<forall>i. i < length ss \<longrightarrow> mset (kids1 i) = mset (childIndices ss (length ss) i)"
    using Suc.prems(2) i by (auto simp: kids1_def ks_def)
  have P1: "P st1"
    unfolding P_def using ts1 perm1 i by (auto simp: st1_def)
  have ksset: "set ks = set (childIndices ss (length ss) i)"
    using perm1 i by (metis fun_upd_same kids1_def mset_eq_setD)
  have "\<exists>s'. forEach (\<lambda>c j s. sortChildren depth c j s) (map (\<lambda>j. n0 + j) ks) 0 st1
          = (Inr (), s') \<and> P s'"
  proof (rule forEach_success [where P = P, OF P1])
    fix c j' t
    assume c: "c \<in> set (map (\<lambda>j. n0 + j) ks)" and t: "P t"
    from c ksset obtain j where j: "c = n0 + j" "j < length ss" "isChildOf (ss ! j) (ss ! i)"
      by (auto simp: childIndices_def)
    from t obtain kt where kt: "treeState n0 ss kt t"
      "\<forall>i. i < length ss \<longrightarrow> mset (kt i) = mset (childIndices ss (length ss) i)"
      and ft: "\<forall>r. r < n0 \<or> n0 + length ss \<le> r \<longrightarrow> heap t r = heap st r"
      "nextRef t = nextRef st" "console t = console st"
      unfolding P_def by blast
    from upchain_extend [OF d Suc.prems(3,4,5) j(2,3)]
    have up: "upchain ss (j # i # rest)" and dc: "distinct (j # i # rest)" by simp_all
    have top: "\<not> ownAncestor ss (last (j # i # rest))" using Suc.prems(5) by simp
    have dp: "length ss < depth + length (j # i # rest)" using Suc.prems(6) by simp
    from Suc.IH [OF kt up dc top dp, of j'] ft
    show "\<exists>t'. sortChildren depth c j' t = (Inr (), t') \<and> P t'"
      unfolding P_def j(1) by (metis (no_types, lifting))
  qed
  then show ?case unfolding step P_def by blast
qed

subsection \<open>The root found by the linking loop\<close>

lemma lastParentless_alt:
  "lastParentless ss k =
     (if filter (\<lambda>j. \<not> truthy (parentSpanId (ss ! j))) [0..<k] = [] then None
      else Some (last (filter (\<lambda>j. \<not> truthy (parentSpanId (ss ! j))) [0..<k])))"
  by (simp add: lastParentless_def split: list.splits)

lemma lastParentless_Suc:
  "lastParentless ss (Suc k) =
     (if truthy (parentSpanId (ss ! k)) then lastParentless ss k else Some k)"
  by (simp add: lastParentless_alt)

lemma foldl_lastParentless:
  "foldl (\<lambda>r j. if truthy (parentSpanId (ss ! j)) then r else Some (n0 + j)) None [0..<k]
     = map_option (\<lambda>j. n0 + j) (lastParentless ss k)"
proof (induction k)
  case 0
  show ?case by (simp add: lastParentless_def)
next
  case (Suc k)
  then show ?case by (simp add: lastParentless_Suc)
qed

lemma lastParentless_Some:
  "lastParentless ss k = Some i \<Longrightarrow>
     i < k \<and> \<not> truthy (parentSpanId (ss ! i))
     \<and> (\<forall>j. i < j \<and> j < k \<longrightarrow> truthy (parentSpanId (ss ! j)))"
proof (induction k)
  case 0
  then show ?case by (simp add: lastParentless_def)
next
  case (Suc k)
  then show ?case
    by (auto simp: lastParentless_Suc less_Suc_eq split: if_splits)
qed

lemma lastParentless_None:
  "lastParentless ss k = None \<Longrightarrow> j < k \<Longrightarrow> truthy (parentSpanId (ss ! j))"
proof (induction k)
  case 0
  then show ?case by simp
next
  case (Suc k)
  then show ?case
    by (auto simp: lastParentless_Suc less_Suc_eq split: if_splits)
qed

subsection \<open>The two loops together\<close>

lemma wellFormed_nth:
  assumes "wellFormed st spans elems ss"
  shows "length elems = length ss"
    and "\<forall>j. j < length ss \<longrightarrow> heap st (elems ! j) = Some (Span (ss ! j))"
proof -
  from assms have el: "map (heap st) elems = map (\<lambda>s. Some (Span s)) ss"
    by (simp add: wellFormed_def)
  then show len: "length elems = length ss" by (metis length_map)
  show "\<forall>j. j < length ss \<longrightarrow> heap st (elems ! j) = Some (Span (ss ! j))"
    using el len by (metis nth_map)
qed

lemma loops_distinct:
  assumes wf: "wellFormed st spans elems ss" and d: "distinct (map spanId ss)"
  shows "\<exists>m st1 st2.
      createNodes elems Map.empty st = (Inr m, st1)
      \<and> linkNodes elems m None st1
          = (Inr (map_option (\<lambda>j. nextRef st + j) (lastParentless ss (length ss))), st2)
      \<and> (\<forall>i. i < length ss \<longrightarrow> m (spanId (ss ! i)) = Some (nextRef st + i))
      \<and> treeState (nextRef st) ss (childIndices ss (length ss)) st2
      \<and> (\<forall>r. r < nextRef st \<longrightarrow> heap st2 r = heap st r)
      \<and> (\<forall>r. nextRef st + length ss \<le> r \<longrightarrow> heap st2 r = None)
      \<and> nextRef st2 = nextRef st + length ss \<and> console st2 = console st"
proof -
  define n0 where "n0 = nextRef st"
  from wf have el: "map (heap st) elems = map (\<lambda>s. Some (Span s)) ss"
    and fr: "\<forall>r. n0 \<le> r \<longrightarrow> heap st r = None"
    by (simp_all add: wellFormed_def n0_def)
  have lt: "\<forall>a \<in> set elems. a < n0"
    using wellFormed_below(2) [OF wf] by (simp add: n0_def)
  note nth = wellFormed_nth [OF wf]
  from createNodes_distinct [OF el lt [unfolded n0_def] d, of Map.empty]
  obtain m st1 where cn: "createNodes elems Map.empty st = (Inr m, st1)"
    and nx1: "nextRef st1 = n0 + length ss" and co1: "console st1 = console st"
    and hp1: "\<forall>r. heap st1 r =
            (if n0 \<le> r \<and> r < n0 + length ss
             then Some (Node (newNode (ss ! (r - n0)))) else heap st r)"
    and mp: "\<forall>i. i < length ss \<longrightarrow> m (spanId (ss ! i)) = Some (n0 + i)"
    and mo: "\<forall>k. k \<notin> spanId ` set ss \<longrightarrow> m k = None"
    unfolding n0_def by auto
  have el1: "\<forall>j. j < length ss \<longrightarrow> heap st1 (elems ! j) = Some (Span (ss ! j))"
  proof (intro allI impI)
    fix j assume j: "j < length ss"
    with lt nth(1) have "elems ! j < n0" by simp
    with hp1 nth(2) j show "heap st1 (elems ! j) = Some (Span (ss ! j))" by simp
  qed
  have ts1: "treeState n0 ss (childIndices ss 0) st1"
    using hp1 by (simp add: treeState_def childIndices_def newNode_def)
  from linkNodes_distinct [OF el1 nth(1) lt mp mo d ts1, of None]
  obtain st2 where ln: "linkNodes elems m None st1 =
          (Inr (foldl (\<lambda>r j. if truthy (parentSpanId (ss ! j)) then r else Some (n0 + j))
                  None [0..<length ss]), st2)"
    and ts2: "treeState n0 ss (childIndices ss (length ss)) st2"
    and f2: "\<forall>r. r < n0 \<or> n0 + length ss \<le> r \<longrightarrow> heap st2 r = heap st1 r"
    and nc2: "nextRef st2 = nextRef st1" "console st2 = console st1"
    by auto
  have below: "\<forall>r. r < n0 \<longrightarrow> heap st2 r = heap st r"
    using f2 hp1 by simp
  have above: "\<forall>r. n0 + length ss \<le> r \<longrightarrow> heap st2 r = None"
    using f2 hp1 fr by simp
  show ?thesis
    unfolding n0_def [symmetric]
    using cn ln [unfolded foldl_lastParentless] mp ts2 below above nc2 nx1 co1
    by auto
qed

subsection \<open>What buildSpanTree returns on spans with unique ids\<close>

lemma buildSpanTree_root:
  assumes wf: "wellFormed st spans elems ss" and d: "distinct (map spanId ss)"
    and lp: "lastParentless ss (length ss) = Some i0"
    and dp: "length ss \<le> depth"
  shows "\<exists>kids st'. buildSpanTree depth spans st = (Inr (Some (nextRef st + i0)), st')
      \<and> treeState (nextRef st) ss kids st'
      \<and> (\<forall>i. i < length ss \<longrightarrow> mset (kids i) = mset (childIndices ss (length ss) i))
      \<and> (\<forall>r. r < nextRef st \<longrightarrow> heap st' r = heap st r)
      \<and> (\<forall>r. nextRef st + length ss \<le> r \<longrightarrow> heap st' r = None)
      \<and> console st' = console st"
proof -
  define n0 where "n0 = nextRef st"
  from loops_distinct [OF wf d] lp
  obtain m st1 st2 where cn: "createNodes elems Map.empty st = (Inr m, st1)"
    and ln: "linkNodes elems m None st1 = (Inr (Some (n0 + i0)), st2)"
    and ts2: "treeState n0 ss (childIndices ss (length ss)) st2"
    and below: "\<forall>r. r < n0 \<longrightarrow> heap st2 r = heap st r"
    and above: "\<forall>r. n0 + length ss \<le> r \<longrightarrow> heap st2 r = None"
    and co2: "console st2 = console st"
    unfolding n0_def by auto
  from lastParentless_Some [OF lp]
  have up: "upchain ss [i0]" and top: "\<not> ownAncestor ss (last [i0])"
    by (simp_all add: parentless_not_ownAncestor)
  have ne: "elems \<noteq> []"
    using lastParentless_Some [OF lp] wellFormed_nth(1) [OF wf] by auto
  have sp: "heap st spans = Some (Array elems)"
    using wf by (simp add: wellFormed_def)
  from sortChildren_tree [OF d ts2 _ up _ top, of depth 0] dp
  obtain kids st' where sc: "sortChildren depth (n0 + i0) 0 st2 = (Inr (), st')"
    and ts: "treeState n0 ss kids st'"
    and pm: "\<forall>i. i < length ss \<longrightarrow> mset (kids i) = mset (childIndices ss (length ss) i)"
    and fr: "\<forall>r. r < n0 \<or> n0 + length ss \<le> r \<longrightarrow> heap st' r = heap st2 r"
    and co: "console st' = console st2"
    by auto
  have "buildSpanTree depth spans st = (Inr (Some (n0 + i0)), st')"
    using sp ne cn ln sc by (simp add: buildSpanTree_def)
  with ts pm fr below above co co2 show ?thesis
    unfolding n0_def [symmetric] by auto
qed

lemma hd_insort_key:
  "hd (insort_key f x xs) = (if xs = [] \<or> f x \<le> f (hd xs) then x else hd xs)"
  by (cases xs) auto

lemma hd_sort_key:
  assumes "xs \<noteq> []"
  shows "\<exists>ys zs. xs = ys @ hd (sort_key f xs) # zs
       \<and> (\<forall>y \<in> set ys. f (hd (sort_key f xs)) < f y)
       \<and> (\<forall>x \<in> set xs. f (hd (sort_key f xs)) \<le> f x)"
  using assms
proof (induction xs)
  case Nil
  then show ?case by simp
next
  case (Cons x xs)
  show ?case
  proof (cases "xs = []")
    case True
    then have "x # xs = [] @ hd (sort_key f (x # xs)) # []"
      and "\<forall>y \<in> set (x # xs). f (hd (sort_key f (x # xs))) \<le> f y"
      by simp_all
    then show ?thesis by (metis empty_iff list.set(1))
  next
    case False
    from Cons.IH [OF False] obtain ys zs where
      dec: "xs = ys @ hd (sort_key f xs) # zs"
      and lt: "\<forall>y \<in> set ys. f (hd (sort_key f xs)) < f y"
      and le: "\<forall>x \<in> set xs. f (hd (sort_key f xs)) \<le> f x"
      by blast
    have ne: "sort_key f xs \<noteq> []" using False by (metis length_0_conv length_sort)
    show ?thesis
    proof (cases "f x \<le> f (hd (sort_key f xs))")
      case True
      then have h: "hd (sort_key f (x # xs)) = x" by (simp add: hd_insort_key)
      have "x # xs = [] @ x # xs" by simp
      moreover have "\<forall>y \<in> set (x # xs). f x \<le> f y" using True le by auto
      ultimately show ?thesis unfolding h by (metis empty_iff list.set(1))
    next
      case gt: False
      then have h: "hd (sort_key f (x # xs)) = hd (sort_key f xs)"
        using ne by (simp add: hd_insort_key)
      have "x # xs = (x # ys) @ hd (sort_key f xs) # zs" using dec by simp
      moreover have "\<forall>y \<in> set (x # ys). f (hd (sort_key f xs)) < f y" using gt lt by auto
      moreover have "\<forall>y \<in> set (x # xs). f (hd (sort_key f xs)) \<le> f y" using gt le by auto
      ultimately show ?thesis unfolding h by blast
    qed
  qed
qed

lemma hd_sort_key_upt:
  assumes "0 < n"
  shows "hd (sort_key f [0..<n]) < n
       \<and> (\<forall>j. j < hd (sort_key f [0..<n]) \<longrightarrow> f (hd (sort_key f [0..<n])) < f j)
       \<and> (\<forall>j. j < n \<longrightarrow> f (hd (sort_key f [0..<n])) \<le> f j)"
proof -
  define h where "h = hd (sort_key f [0..<n])"
  from assms have "[0..<n] \<noteq> []" by simp
  from hd_sort_key [OF this, of f] obtain ys zs where
    dec: "[0..<n] = ys @ h # zs" and lt: "\<forall>y \<in> set ys. f h < f y"
    and le: "\<forall>x \<in> set [0..<n]. f h \<le> f x"
    unfolding h_def by blast
  have "h \<in> set [0..<n]" by (subst dec) simp
  then have hn: "h < n" by simp
  from dec have "length [0..<n] = length (ys @ h # zs)" by (rule arg_cong)
  then have len: "length ys < n" by simp
  from dec have "[0..<n] ! length ys = (ys @ h # zs) ! length ys" by (rule arg_cong)
  with len have lh: "length ys = h" by simp
  from dec have "take (length ys) [0..<n] = take (length ys) (ys @ h # zs)" by (rule arg_cong)
  then have "ys = [0..<h]" using hn lh by (simp add: take_upt)
  with lt le hn show ?thesis unfolding h_def [symmetric] by simp
qed

lemma insort_key_cong_on:
  "f x = g x \<Longrightarrow> \<forall>y \<in> set xs. f y = g y \<Longrightarrow> insort_key f x xs = insort_key g x xs"
  by (induction xs) auto

lemma sort_key_cong_on: "\<forall>x \<in> set xs. f x = g x \<Longrightarrow> sort_key f xs = sort_key g xs"
proof (induction xs)
  case Nil
  show ?case by simp
next
  case (Cons x xs)
  then have eq: "sort_key f xs = sort_key g xs" by simp
  have "insort_key f x (sort_key g xs) = insort_key g x (sort_key g xs)"
    using Cons.prems by (intro insort_key_cong_on) simp_all
  with eq show ?case by simp
qed

lemma buildSpanTree_fallback_step:
  assumes "heap st spans = Some (Array elems)" and "elems \<noteq> []"
    and "createNodes elems Map.empty st = (Inr m, st1)"
    and "linkNodes elems m None st1 = (Inr None, st2)"
    and "alloc (Array elems) st2 = (r, st3)"
    and "sort_key (startTimeAt st3) elems = first # others"
    and "heap (st3\<lparr>heap := (heap st3)(r \<mapsto> Array (first # others))\<rparr>) first = Some (Span sp)"
  shows "buildSpanTree depth spans st
         = (Inr (m (spanId sp)), st3\<lparr>heap := (heap st3)(r \<mapsto> Array (first # others))\<rparr>)"
  using assms by (simp add: buildSpanTree_def Let_def)

lemma buildSpanTree_fallback:
  assumes wf: "wellFormed st spans elems ss" and d: "distinct (map spanId ss)"
    and lp: "lastParentless ss (length ss) = None" and ne: "ss \<noteq> []"
  shows "\<exists>j st'. buildSpanTree depth spans st = (Inr (Some (nextRef st + j)), st')
      \<and> j < length ss \<and> j = rootIndex ss
      \<and> (\<forall>j'. j' < j \<longrightarrow> startTime (ss ! j) < startTime (ss ! j'))
      \<and> (\<forall>j'. j' < length ss \<longrightarrow> startTime (ss ! j) \<le> startTime (ss ! j'))
      \<and> treeState (nextRef st) ss (childIndices ss (length ss)) st'
      \<and> (\<forall>r. r < nextRef st \<longrightarrow> heap st' r = heap st r)
      \<and> console st' = console st"
proof -
  define n0 where "n0 = nextRef st"
  define n where "n = length ss"
  from loops_distinct [OF wf d] lp
  obtain m st1 st2 where cn: "createNodes elems Map.empty st = (Inr m, st1)"
    and ln: "linkNodes elems m None st1 = (Inr None, st2)"
    and mp: "\<forall>i. i < n \<longrightarrow> m (spanId (ss ! i)) = Some (n0 + i)"
    and ts2: "treeState n0 ss (childIndices ss n) st2"
    and below: "\<forall>r. r < n0 \<longrightarrow> heap st2 r = heap st r"
    and nx2: "nextRef st2 = n0 + n"
    and co2: "console st2 = console st"
    unfolding n0_def n_def by auto
  note nth = wellFormed_nth [OF wf, folded n_def]
  have lt: "\<forall>a \<in> set elems. a < n0"
    using wellFormed_below(2) [OF wf] by (simp add: n0_def)
  have n_pos: "0 < n" using ne by (simp add: n_def)
  have ene: "elems \<noteq> []" using nth(1) n_pos by auto
  have sp: "heap st spans = Some (Array elems)"
    using wf by (simp add: wellFormed_def)
  define st3 where "st3 = snd (alloc (Array elems) st2)"
  have al: "alloc (Array elems) st2 = (n0 + n, st3)"
    by (simp add: st3_def alloc_def nx2)
  define key where "key = (\<lambda>j. startTimeAt st3 (elems ! j))"
  define j where "j = hd (sort_key key [0..<n])"
  define st4 where
    "st4 = st3\<lparr>heap := (heap st3)(n0 + n \<mapsto> Array (sort_key (startTimeAt st3) elems))\<rparr>"
  have h3: "heap st3 = (heap st2)(n0 + n \<mapsto> Array elems)" and co3: "console st3 = console st2"
    by (simp_all add: st3_def alloc_def nx2)
  have keyj: "key j' = startTime (ss ! j')" if "j' < n" for j'
  proof -
    from that lt nth(1) have "elems ! j' < n0" by simp
    with below nth(2) that have "heap st3 (elems ! j') = Some (Span (ss ! j'))"
      by (simp add: h3)
    then show ?thesis by (simp add: key_def startTimeAt_def)
  qed
  from hd_sort_key_upt [OF n_pos, of key]
  have jn: "j < n" and jlt: "\<forall>j'. j' < j \<longrightarrow> key j < key j'"
    and jle: "\<forall>j'. j' < n \<longrightarrow> key j \<le> key j'"
    unfolding j_def by simp_all
  have "elems = map (\<lambda>j. elems ! j) [0..<n]"
    using nth(1) by (metis map_nth)
  then have "sort_key (startTimeAt st3) elems = map (\<lambda>j. elems ! j) (sort_key key [0..<n])"
    unfolding key_def by (metis sort_key_map)
  moreover have "sort_key key [0..<n] \<noteq> []"
    using n_pos by (metis length_0_conv length_sort length_upt diff_zero less_numeral_extra(3))
  ultimately obtain others where
    sorted: "sort_key (startTimeAt st3) elems = elems ! j # others"
    unfolding j_def by (cases "sort_key key [0..<n]") auto
  have st4': "st4 = st3\<lparr>heap := (heap st3)(n0 + n \<mapsto> Array (elems ! j # others))\<rparr>"
    by (simp add: st4_def sorted)
  have ej: "elems ! j < n0" using jn lt nth(1) by simp
  then have first: "heap st4 (elems ! j) = Some (Span (ss ! j))"
    using below nth(2) jn by (simp add: st4_def h3)
  have "buildSpanTree depth spans st = (Inr (m (spanId (ss ! j))), st4)"
    unfolding st4'
    by (rule buildSpanTree_fallback_step [OF sp ene cn ln al sorted first [unfolded st4']])
  then have run: "buildSpanTree depth spans st = (Inr (Some (n0 + j)), st4)"
    using mp jn by simp
  have ts4: "treeState n0 ss (childIndices ss n) st4"
    using ts2 unfolding n_def
    by (rule treeState_cong) (simp_all add: st4_def h3 n_def)
  have below4: "\<forall>r. r < n0 \<longrightarrow> heap st4 r = heap st r"
    using below by (simp add: st4_def h3)
  have co4: "console st4 = console st" by (simp add: st4_def co3 co2)
  have jlt': "\<forall>j'. j' < j \<longrightarrow> startTime (ss ! j) < startTime (ss ! j')"
    using jlt jn keyj by (metis less_trans)
  have jle': "\<forall>j'. j' < n \<longrightarrow> startTime (ss ! j) \<le> startTime (ss ! j')"
    using jle jn keyj by metis
  have "sort_key key [0..<n] = sort_key (\<lambda>j. startTime (ss ! j)) [0..<n]"
    by (rule sort_key_cong_on) (simp add: keyj)
  then have jr: "j = rootIndex ss"
    by (simp add: rootIndex_def lp j_def n_def)
  from run jn jr jlt' jle' ts4 below4 co4 show ?thesis
    unfolding n0_def [symmetric] n_def [symmetric] by blast
qed

subsection \<open>Reading the tree\<close>

lemma treeState_spanAt:
  "treeState n0 ss kids st \<Longrightarrow> i < length ss \<Longrightarrow> spanAt st (n0 + i) = Some (ss ! i)"
  by (simp add: treeState_def spanAt_def spanOf_def newNode_def)

lemma treeState_childrenAt:
  "treeState n0 ss kids st \<Longrightarrow> i < length ss
   \<Longrightarrow> childrenAt st (n0 + i) = map (\<lambda>j. n0 + j) (kids i)"
  by (simp add: treeState_def childrenAt_def)






subsection \<open>Evaluating the examples\<close>

lemmas build_eval =
  buildSpanTree_def loadSpans_def alloc_def mkSpan_def ascii_def truthy_def newNode_def
  Let_def spanAt_def spanOf_def childrenAt_def startTimeAt_def

lemma wellFormed_noParentless:
  "wellFormed (loadSpans noParentless) 3 [0, 1, 2] noParentless"
  by (simp add: wellFormed_def loadSpans_def noParentless_def)


subsection \<open>Several spans without a parent\<close>

lemma filter_nth_upt:
  "filter P xs = map ((!) xs) (filter (\<lambda>j. P (xs ! j)) [0..<length xs])"
proof -
  have "filter P (map ((!) xs) [0..<length xs])
      = map ((!) xs) (filter (\<lambda>j. P (xs ! j)) [0..<length xs])"
    by (simp add: filter_map comp_def)
  then show ?thesis by (simp add: map_nth)
qed

lemma lastParentless_last:
  assumes "filter (\<lambda>s. \<not> truthy (parentSpanId s)) ss \<noteq> []"
  shows "\<exists>i0. lastParentless ss (length ss) = Some i0
       \<and> ss ! i0 = last (filter (\<lambda>s. \<not> truthy (parentSpanId s)) ss)"
proof -
  define js where "js = filter (\<lambda>j. \<not> truthy (parentSpanId (ss ! j))) [0..<length ss]"
  have eq: "filter (\<lambda>s. \<not> truthy (parentSpanId s)) ss = map ((!) ss) js"
    unfolding js_def by (rule filter_nth_upt)
  with assms have ne: "js \<noteq> []" by auto
  then have "lastParentless ss (length ss) = Some (last js)"
    by (simp add: lastParentless_alt js_def)
  moreover have "ss ! last js = last (filter (\<lambda>s. \<not> truthy (parentSpanId s)) ss)"
    using ne by (simp add: eq last_map)
  ultimately show ?thesis by blast
qed

text \<open>
  Claim C6. For a list of spans of which two or more have no parent, \<^verbatim>\<open>buildSpanTree\<close>
  returns a root node that holds the last span without a parent, in input order. The
  \<^verbatim>\<open>spanId\<close>s are unique, as the data model requires of the spans of one render, and
  the call stack is at least as deep as the list is long.
\<close>

theorem buildSpanTree_last_parentless:
  assumes wf: "wellFormed st spans elems ss" and d: "distinct (map spanId ss)"
    and two: "2 \<le> length (filter (\<lambda>s. \<not> truthy (parentSpanId s)) ss)"
    and dp: "length ss \<le> depth"
  shows "\<exists>root' st'. buildSpanTree depth spans st = (Inr (Some root'), st')
      \<and> spanAt st' root' = Some (last (filter (\<lambda>s. \<not> truthy (parentSpanId s)) ss))"
proof -
  from two have "filter (\<lambda>s. \<not> truthy (parentSpanId s)) ss \<noteq> []" by auto
  from lastParentless_last [OF this] obtain i0 where
    lp: "lastParentless ss (length ss) = Some i0"
    and i0: "ss ! i0 = last (filter (\<lambda>s. \<not> truthy (parentSpanId s)) ss)"
    by blast
  from buildSpanTree_root [OF wf d lp dp] obtain kids st' where
    run: "buildSpanTree depth spans st = (Inr (Some (nextRef st + i0)), st')"
    and ts: "treeState (nextRef st) ss kids st'"
    by blast
  have "i0 < length ss" using lastParentless_Some [OF lp] by simp
  from treeState_spanAt [OF ts this] i0 run show ?thesis by simp
qed

lemma wellFormed_threeParentless:
  "wellFormed (loadSpans threeParentless) 4 [0, 1, 2, 3] threeParentless"
  by (simp add: wellFormed_def loadSpans_def threeParentless_def)

text \<open>
  On \<open>threeParentless\<close> the root holds \<open>Y\<close>: the last span without a parent, which is
  neither the first such span, nor the one that starts earliest, nor the last span of the
  input.
\<close>

theorem buildSpanTree_last_parentless_witness:
  "wellFormed (loadSpans threeParentless) 4 [0, 1, 2, 3] threeParentless
   \<and> distinct (map spanId threeParentless)
   \<and> 2 \<le> length (filter (\<lambda>s. \<not> truthy (parentSpanId s)) threeParentless)
   \<and> length threeParentless \<le> 4
   \<and> (\<exists>root' st'. buildSpanTree 4 4 (loadSpans threeParentless) = (Inr (Some root'), st')
        \<and> spanAt st' root' = Some (mkSpan ''Y'' None 5 1))
   \<and> mkSpan ''Y'' None 5 1 = threeParentless ! 2
   \<and> hd (filter (\<lambda>s. \<not> truthy (parentSpanId s)) threeParentless) = threeParentless ! 0
   \<and> startTime (threeParentless ! 0) < startTime (threeParentless ! 2)
   \<and> last threeParentless = threeParentless ! 3"
proof -
  have d: "distinct (map spanId threeParentless)"
    by (simp add: threeParentless_def mkSpan_def ascii_def)
  have f: "filter (\<lambda>s. \<not> truthy (parentSpanId s)) threeParentless
      = [mkSpan ''P'' None 1 1, mkSpan ''X'' None 3 1, mkSpan ''Y'' None 5 1]"
    by (simp add: threeParentless_def mkSpan_def truthy_def ascii_def)
  have two: "2 \<le> length (filter (\<lambda>s. \<not> truthy (parentSpanId s)) threeParentless)"
    unfolding f by simp
  have dp: "length threeParentless \<le> 4" by (simp add: threeParentless_def)
  have l: "last (filter (\<lambda>s. \<not> truthy (parentSpanId s)) threeParentless)
      = mkSpan ''Y'' None 5 1"
    unfolding f by simp
  have rest: "mkSpan ''Y'' None 5 1 = threeParentless ! 2"
    "hd (filter (\<lambda>s. \<not> truthy (parentSpanId s)) threeParentless) = threeParentless ! 0"
    "startTime (threeParentless ! 0) < startTime (threeParentless ! 2)"
    "last threeParentless = threeParentless ! 3"
    unfolding f by (simp_all add: threeParentless_def mkSpan_def)
  from buildSpanTree_last_parentless [OF wellFormed_threeParentless d two dp]
  show ?thesis
    unfolding l using wellFormed_threeParentless d two dp rest by blast
qed

subsection \<open>A repeated \<^verbatim>\<open>spanId\<close>\<close>

text \<open>
  The uniqueness of the \<^verbatim>\<open>spanId\<close>s is needed. When a later span repeats the
  \<^verbatim>\<open>spanId\<close> of the last span without a parent, the two share one node, which holds
  the later span: here the root returned holds the third span, which has a parent id.
\<close>

lemma buildSpanTree_last_parentless_repeated_id:
  "length (filter (\<lambda>s. \<not> truthy (parentSpanId s)) twoParentlessThenDuplicate) = 2
   \<and> last (filter (\<lambda>s. \<not> truthy (parentSpanId s)) twoParentlessThenDuplicate)
       = mkSpan ''Y'' None 1 1
   \<and> fst (buildSpanTree 3 3 (loadSpans twoParentlessThenDuplicate)) = Inr (Some 6)
   \<and> spanAt (snd (buildSpanTree 3 3 (loadSpans twoParentlessThenDuplicate))) 6
       = Some (mkSpan ''Y'' (Some ''zz'') 3 1)"
  by (simp add: build_eval twoParentlessThenDuplicate_def eval_nat_numeral)

subsection \<open>No span without a parent\<close>

lemma lastParentless_None_iff:
  assumes "\<forall>s \<in> set ss. truthy (parentSpanId s)"
  shows "lastParentless ss (length ss) = None"
proof (cases "lastParentless ss (length ss)")
  case None
  then show ?thesis .
next
  case (Some i)
  from lastParentless_Some [OF Some] assms show ?thesis by (metis nth_mem)
qed

text \<open>
  Claim C7. For a non-empty list of spans in which every span has a non-empty
  \<^verbatim>\<open>parentSpanId\<close>, \<^verbatim>\<open>buildSpanTree\<close> returns, at every stack depth, a root node that
  holds a span of minimum \<^verbatim>\<open>startTime\<close>: the first such span in input order. The
  \<^verbatim>\<open>spanId\<close>s are unique, as the data model requires of the spans of one render.
\<close>

theorem buildSpanTree_fallback_earliest:
  assumes wf: "wellFormed st spans elems ss" and ne: "ss \<noteq> []"
    and d: "distinct (map spanId ss)"
    and all: "\<forall>s \<in> set ss. truthy (parentSpanId s)"
  shows "\<exists>j st'. buildSpanTree depth spans st = (Inr (Some (nextRef st + j)), st')
      \<and> j < length ss \<and> spanAt st' (nextRef st + j) = Some (ss ! j)
      \<and> (\<forall>s \<in> set ss. startTime (ss ! j) \<le> startTime s)
      \<and> (\<forall>j'. j' < j \<longrightarrow> startTime (ss ! j) < startTime (ss ! j'))"
proof -
  from buildSpanTree_fallback [OF wf d lastParentless_None_iff [OF all] ne, of depth]
  obtain j st' where
    run: "buildSpanTree depth spans st = (Inr (Some (nextRef st + j)), st')"
    and j: "j < length ss"
    and first: "\<forall>j'. j' < j \<longrightarrow> startTime (ss ! j) < startTime (ss ! j')"
    and least: "\<forall>j'. j' < length ss \<longrightarrow> startTime (ss ! j) \<le> startTime (ss ! j')"
    and ts: "treeState (nextRef st) ss (childIndices ss (length ss)) st'"
    by blast
  from least have "\<forall>s \<in> set ss. startTime (ss ! j) \<le> startTime s"
    by (metis in_set_conv_nth)
  with run j first treeState_spanAt [OF ts j] show ?thesis by blast
qed

theorem buildSpanTree_fallback_earliest_witness:
  "wellFormed (loadSpans noParentless) 3 [0, 1, 2] noParentless
   \<and> noParentless \<noteq> [] \<and> distinct (map spanId noParentless)
   \<and> list_all (\<lambda>s. truthy (parentSpanId s)) noParentless
   \<and> (\<exists>j st'. buildSpanTree 0 3 (loadSpans noParentless)
                 = (Inr (Some (nextRef (loadSpans noParentless) + j)), st')
        \<and> j < length noParentless
        \<and> spanAt st' (nextRef (loadSpans noParentless) + j) = Some (noParentless ! j))"
proof -
  have ne: "noParentless \<noteq> []" by (simp add: noParentless_def)
  have d: "distinct (map spanId noParentless)"
    by (simp add: noParentless_def mkSpan_def ascii_def)
  have all: "\<forall>s \<in> set noParentless. truthy (parentSpanId s)"
    by (simp add: noParentless_def mkSpan_def truthy_def ascii_def)
  from buildSpanTree_fallback_earliest [OF wellFormed_noParentless ne d all, of 0]
  show ?thesis
    using wellFormed_noParentless ne d all by (simp add: list_all_iff) blast
qed

text \<open>
  The uniqueness of the \<^verbatim>\<open>spanId\<close>s is needed. Here a \<^verbatim>\<open>spanId\<close> repeats: the span of
  minimum \<^verbatim>\<open>startTime\<close> is the first one, and the root returned holds the second, which
  starts later.
\<close>

lemma buildSpanTree_fallback_earliest_repeated_id:
  "list_all (\<lambda>s. truthy (parentSpanId s)) duplicateEarliest
   \<and> startTime (duplicateEarliest ! 0) < startTime (duplicateEarliest ! 1)
   \<and> fst (buildSpanTree 2 2 (loadSpans duplicateEarliest)) = Inr (Some 4)
   \<and> spanAt (snd (buildSpanTree 2 2 (loadSpans duplicateEarliest))) 4
       = Some (duplicateEarliest ! 1)"
  by (simp add: build_eval duplicateEarliest_def eval_nat_numeral)

subsection \<open>The empty input, and the root of a non-empty one\<close>

lemma buildSpanTree_empty:
  "heap st spans = Some (Array []) \<Longrightarrow> buildSpanTree depth spans st = (Inr None, st)"
  by (simp add: buildSpanTree_def)

lemma renderTrace_empty:
  "heap st spans = Some (Array []) \<Longrightarrow> renderTrace depth traceId spans st = (Inr (), st)"
  by (simp add: renderTrace_def buildSpanTree_empty)

lemma buildSpanTree_returns_root:
  assumes wf: "wellFormed st spans elems ss" and ne: "ss \<noteq> []"
    and d: "distinct (map spanId ss)" and dp: "length ss \<le> depth"
  shows "\<exists>j kids st'. buildSpanTree depth spans st = (Inr (Some (nextRef st + j)), st')
      \<and> j < length ss \<and> treeState (nextRef st) ss kids st'
      \<and> (\<forall>i. i < length ss \<longrightarrow> mset (kids i) = mset (childIndices ss (length ss) i))
      \<and> (\<forall>r. r < nextRef st \<longrightarrow> heap st' r = heap st r)
      \<and> console st' = console st
      \<and> (lastParentless ss (length ss) \<noteq> None \<longrightarrow> lastParentless ss (length ss) = Some j)
      \<and> j = rootIndex ss"
proof (cases "lastParentless ss (length ss)")
  case None
  from buildSpanTree_fallback [OF wf d None ne, of depth] None show ?thesis
    by (metis option.distinct(1))
next
  case (Some i0)
  have "rootIndex ss = i0" by (simp add: rootIndex_def Some)
  with buildSpanTree_root [OF wf d Some dp] lastParentless_Some [OF Some] Some
  show ?thesis by (metis option.inject)
qed



lemma sortChildren_self_loop:
  "childrenAt st r = [r] \<Longrightarrow> fst (sortChildren depth r i st) = Inl StackOverflow"
proof (induction depth arbitrary: i st)
  case 0
  show ?case by simp
next
  case (Suc depth)
  from Suc.prems obtain nd where nd: "heap st r = Some (Node nd)" "children nd = [r]"
    by (auto simp: childrenAt_def split: option.splits obj.splits)
  define st1 where "st1 = st\<lparr>heap := (heap st)(r \<mapsto> Node (nd\<lparr>children := [r]\<rparr>))\<rparr>"
  have "childrenAt st1 r = [r]" by (simp add: st1_def childrenAt_def)
  from Suc.IH [OF this, of 0] have "fst (sortChildren depth r 0 st1) = Inl StackOverflow" .
  then obtain st2 where "sortChildren depth r 0 st1 = (Inl StackOverflow, st2)"
    by (cases "sortChildren depth r 0 st1") auto
  then show ?case using nd by (simp add: st1_def)
qed

lemma fst_case_outcome:
  "fst (case x of (Inl e, s) \<Rightarrow> (Inl e, s) | (Inr u, s) \<Rightarrow> (Inr v, s)) = Inl e'
   \<longleftrightarrow> fst x = Inl e'"
  by (cases x; cases "fst x") auto

lemma buildSpanTree_duplicateSelfParent:
  "fst (buildSpanTree depth 2 (loadSpans duplicateSelfParent)) = Inl StackOverflow"
  by (simp add: build_eval duplicateSelfParent_def fst_case_outcome sortChildren_self_loop
      eval_nat_numeral)

text \<open>
  The uniqueness of the \<^verbatim>\<open>spanId\<close>s is needed. Here a \<^verbatim>\<open>spanId\<close> repeats: the node that
  both spans share is the root and its own child, and \<^verbatim>\<open>sortChildren\<close> exhausts the call
  stack however deep it is.
\<close>

lemma buildSpanTree_empty_or_root_repeated_id:
  "duplicateSelfParent \<noteq> []
   \<and> wellFormed (loadSpans duplicateSelfParent) 2 [0, 1] duplicateSelfParent
   \<and> fst (buildSpanTree 10000 2 (loadSpans duplicateSelfParent)) = Inl StackOverflow"
  using buildSpanTree_duplicateSelfParent [of 10000]
  by (simp add: wellFormed_def loadSpans_def duplicateSelfParent_def)

subsection \<open>The nodes of the tree\<close>



subsection \<open>The order of the children after the fallback\<close>

text \<open>
  Claim C3 on the input \<open>noParentless\<close>: no span is without a parent, the fallback
  returns the node of the first span as root, and \<^verbatim>\<open>sortChildren\<close> does not run. The
  root's children are left in input order, with start times 20 and 10.
\<close>

theorem fallback_children_unsorted:
  "fst (buildSpanTree 3 3 (loadSpans noParentless)) = Inr (Some 4)
   \<and> childrenAt (snd (buildSpanTree 3 3 (loadSpans noParentless))) 4 = [5, 6]
   \<and> map (startTimeAt (snd (buildSpanTree 3 3 (loadSpans noParentless)))) [5, 6] = [20, 10]"
  by (simp add: build_eval noParentless_def)

subsection \<open>Rendering, one call at a time\<close>

lemma renderNode_Suc:
  assumes "heap st node = Some (Node n)"
  shows "\<exists>line childPrefix.
     renderNode (Suc depth) st tot t0 node prefix isLast isRoot lines
       = forEach
           (\<lambda>child index ls.
              renderNode depth st tot t0 child childPrefix
                (int index = int (length (children n)) - 1) False ls)
           (children n) 0 (lines @ [line])"
proof -
  have "1 \<le> timelineWidth" by (simp add: timelineWidth_def)
  from renderTimelineBar_shape [OF this] obtain bar where
    bar: "renderTimelineBar (startTime n) (duration n) t0 tot timelineWidth = Inr bar"
    by blast
  show ?thesis
    unfolding renderNode.simps Let_def assms option.case obj.case bar sum.case
    by (intro exI) (rule refl)
qed

lemma renderSpanTree_cases:
  "\<exists>markers. renderSpanTree depth r tot t0 st
     = (case renderNode depth st tot t0 r [] True True [markers] of
          (Inl e, lines) \<Rightarrow> Inl e
        | (Inr u, lines) \<Rightarrow> Inr (join [0x0A] lines))"
proof -
  obtain pad where pad: "repeat (ascii '' '') (int nameColWidth) = Inr pad"
    by (simp add: repeat_def)
  obtain gap where gap: "repeat (ascii '' '') (timelineWidth - 7) = Inr gap"
    by (simp add: repeat_def timelineWidth_def)
  show ?thesis
    unfolding renderSpanTree_def pad gap sum.case Let_def
    by (intro exI) (rule refl)
qed

lemma renderTrace_cases:
  assumes "buildSpanTree depth spans st = (Inr (Some r), st1)"
    and "heap st1 r = Some (Node nd)" and "heap st1 spans = Some (Array elems)"
  shows "\<exists>header. renderTrace depth traceId spans st
     = (case renderSpanTree depth r (duration nd) (startTime nd)
               (console_log header (console_log [] st1)) of
          Inl e \<Rightarrow> (Inl e, console_log header (console_log [] st1))
        | Inr text' \<Rightarrow>
            (Inr (), console_log [] (console_log text'
                       (console_log header (console_log [] st1)))))"
  unfolding renderTrace_def assms prod.case sum.case option.case obj.case Let_def
  by (intro exI) (rule refl)

subsection \<open>Rendering a tree\<close>

lemma renderNode_tree:
  assumes d: "distinct (map spanId ss)"
    and ts: "treeState n0 ss kids st"
    and pm: "\<forall>i. i < length ss \<longrightarrow> mset (kids i) = mset (childIndices ss (length ss) i)"
  shows "upchain ss (i # rest) \<Longrightarrow> distinct (i # rest)
    \<Longrightarrow> \<not> ownAncestor ss (last (i # rest))
    \<Longrightarrow> length ss < depth + length (i # rest)
    \<Longrightarrow> \<exists>lines'. renderNode depth st tot t0 (n0 + i) prefix isLast isRoot lines
                    = (Inr (), lines')"
proof (induction depth arbitrary: i rest prefix isLast isRoot lines)
  case 0
  with upchain_length [of ss "i # rest"] show ?case by simp
next
  case (Suc depth)
  have i: "i < length ss" using upchain_less [OF Suc.prems(1)] by simp
  define nd where "nd = (newNode (ss ! i))\<lparr>children := map (\<lambda>j. n0 + j) (kids i)\<rparr>"
  have hn: "heap st (n0 + i) = Some (Node nd)"
    using ts i by (simp add: treeState_def nd_def)
  from renderNode_Suc [OF hn, of depth tot t0 prefix isLast isRoot lines]
  obtain line childPrefix where step:
    "renderNode (Suc depth) st tot t0 (n0 + i) prefix isLast isRoot lines
       = forEach
           (\<lambda>child index ls.
              renderNode depth st tot t0 child childPrefix
                (int index = int (length (children nd)) - 1) False ls)
           (children nd) 0 (lines @ [line])"
    by blast
  have kset: "set (kids i) = set (childIndices ss (length ss) i)"
    using pm i by (metis mset_eq_setD)
  have "\<exists>s'. forEach
           (\<lambda>child index ls.
              renderNode depth st tot t0 child childPrefix
                (int index = int (length (children nd)) - 1) False ls)
           (children nd) 0 (lines @ [line]) = (Inr (), s') \<and> True"
  proof (rule forEach_success [where P = "\<lambda>_. True"])
    fix c j' t
    assume "c \<in> set (children nd)"
    with kset obtain j where j: "c = n0 + j" "j < length ss" "isChildOf (ss ! j) (ss ! i)"
      by (auto simp: nd_def childIndices_def)
    from upchain_extend [OF d Suc.prems(1,2,3) j(2,3)]
    have up: "upchain ss (j # i # rest)" and dc: "distinct (j # i # rest)" by simp_all
    have top: "\<not> ownAncestor ss (last (j # i # rest))" using Suc.prems(3) by simp
    have dp: "length ss < depth + length (j # i # rest)" using Suc.prems(4) by simp
    from Suc.IH [OF up dc top dp]
    show "\<exists>t'. renderNode depth st tot t0 c childPrefix
                 (int j' = int (length (children nd)) - 1) False t = (Inr (), t') \<and> True"
      unfolding j(1) by simp
  qed simp
  then show ?case unfolding step by blast
qed

lemma renderSpanTree_tree:
  assumes d: "distinct (map spanId ss)"
    and ts: "treeState n0 ss kids st"
    and pm: "\<forall>i. i < length ss \<longrightarrow> mset (kids i) = mset (childIndices ss (length ss) i)"
    and i0: "i0 < length ss" "\<not> ownAncestor ss i0"
    and dp: "length ss \<le> depth"
  shows "\<exists>text'. renderSpanTree depth (n0 + i0) tot t0 st = Inr text'"
proof -
  have up: "upchain ss [i0]" and top: "\<not> ownAncestor ss (last [i0])" using i0 by simp_all
  from renderNode_tree [OF d ts pm up _ top, of depth] dp
  have "\<exists>lines'. renderNode depth st tot t0 (n0 + i0) prefix isLast isRoot lines
                    = (Inr (), lines')" for prefix isLast isRoot lines
    by simp
  with renderSpanTree_cases [of depth "n0 + i0" tot t0 st] show ?thesis
    by (metis (mono_tags, lifting) old.prod.case sum.case(2))
qed

lemma treeState_console:
  "treeState n0 ss kids st \<Longrightarrow> treeState n0 ss kids (console_log s st)"
  by (simp add: treeState_def console_log_def)

text \<open>
  Claim C2, amended. On a list of spans with unique \<^verbatim>\<open>spanId\<close>s that is empty, or in
  which the span that becomes the root (the last span without a parent, or else the first
  span of minimum \<^verbatim>\<open>startTime\<close>) is not its own ancestor through the parent ids, and with
  a call stack at least as deep as the list is long, \<^verbatim>\<open>buildSpanTree\<close> returns,
  \<^verbatim>\<open>renderSpanTree\<close> returns a text for the root it returned, and \<^verbatim>\<open>renderTrace\<close> returns:
  none of them throws. A span without a parent is never its own ancestor.
\<close>

theorem rendering_returns:
  assumes wf: "wellFormed st spans elems ss" and d: "distinct (map spanId ss)"
    and dp: "length ss \<le> depth"
    and rooted: "ss = [] \<or> \<not> ownAncestor ss (rootIndex ss)"
  shows "(\<exists>root' st'. buildSpanTree depth spans st = (Inr root', st')
            \<and> (\<forall>r. root' = Some r \<longrightarrow>
                  (\<exists>text'. renderSpanTree depth r tot t0 st' = Inr text')))
       \<and> (\<exists>st'. renderTrace depth traceId spans st = (Inr (), st'))
       \<and> (\<forall>s \<in> set ss. \<not> truthy (parentSpanId s) \<longrightarrow> \<not> ownAncestor ss (rootIndex ss))"
proof -
  have third: "\<forall>s \<in> set ss. \<not> truthy (parentSpanId s) \<longrightarrow> \<not> ownAncestor ss (rootIndex ss)"
  proof (intro ballI impI)
    fix s assume "s \<in> set ss" "\<not> truthy (parentSpanId s)"
    then obtain k where k: "k < length ss" "\<not> truthy (parentSpanId (ss ! k))"
      by (auto simp: in_set_conv_nth)
    with lastParentless_None [of ss "length ss" k]
    obtain i0 where lp: "lastParentless ss (length ss) = Some i0" by auto
    then have "rootIndex ss = i0" by (simp add: rootIndex_def)
    with lastParentless_Some [OF lp] show "\<not> ownAncestor ss (rootIndex ss)"
      by (simp add: parentless_not_ownAncestor)
  qed
  show ?thesis
  proof (cases "ss = []")
    case True
    with wellFormed_nth(1) [OF wf] wf have "heap st spans = Some (Array [])"
      by (simp add: wellFormed_def)
    with True show ?thesis by (simp add: buildSpanTree_empty renderTrace_empty)
  next
    case False
    with rooted have top: "\<not> ownAncestor ss (rootIndex ss)" by simp
    from buildSpanTree_returns_root [OF wf False d dp] obtain kids st' where
      run: "buildSpanTree depth spans st = (Inr (Some (nextRef st + rootIndex ss)), st')"
      and i0: "rootIndex ss < length ss"
      and ts: "treeState (nextRef st) ss kids st'"
      and pm: "\<forall>i. i < length ss \<longrightarrow> mset (kids i) = mset (childIndices ss (length ss) i)"
      and below: "\<forall>r. r < nextRef st \<longrightarrow> heap st' r = heap st r"
      by blast
    note render = renderSpanTree_tree [OF d _ pm i0 top dp]
    have first: "\<exists>text'. renderSpanTree depth (nextRef st + rootIndex ss) tot t0 st' = Inr text'"
      by (rule render [OF ts])
    obtain nd where nd: "heap st' (nextRef st + rootIndex ss) = Some (Node nd)"
      using ts i0 by (simp add: treeState_def)
    have arr: "heap st' spans = Some (Array elems)"
      using below wellFormed_below(1) [OF wf] wf by (simp add: wellFormed_def)
    from renderTrace_cases [OF run nd arr, of traceId] obtain header where
      rt: "renderTrace depth traceId spans st
       = (case renderSpanTree depth (nextRef st + rootIndex ss) (duration nd) (startTime nd)
                 (console_log header (console_log [] st')) of
            Inl e \<Rightarrow> (Inl e, console_log header (console_log [] st'))
          | Inr text' \<Rightarrow>
              (Inr (), console_log [] (console_log text'
                         (console_log header (console_log [] st')))))"
      by blast
    have "treeState (nextRef st) ss kids (console_log header (console_log [] st'))"
      by (intro treeState_console ts)
    from render [OF this] obtain text' where
      "renderSpanTree depth (nextRef st + rootIndex ss) (duration nd) (startTime nd)
         (console_log header (console_log [] st')) = Inr text'"
      by blast
    then have "\<exists>st''. renderTrace depth traceId spans st = (Inr (), st'')"
      unfolding rt by simp
    with run first third show ?thesis by simp
  qed
qed

lemma rootIndex_noParentless: "rootIndex noParentless = 0"
  by (simp add: rootIndex_def lastParentless_def noParentless_def mkSpan_def truthy_def
      ascii_def upt_rec)

lemma parentIndex_noParentless: "parentIndex noParentless 0 = None"
  by (simp add: parentIndex_def noParentless_def mkSpan_def isChildOf_def ascii_def upt_rec)

lemma not_ownAncestor_noParentless: "\<not> ownAncestor noParentless (rootIndex noParentless)"
proof
  assume "ownAncestor noParentless (rootIndex noParentless)"
  then obtain k where "1 \<le> k" "ancestor noParentless k 0 = Some 0"
    by (auto simp: ownAncestor_def rootIndex_noParentless)
  with parentIndex_noParentless show False by (cases k) simp_all
qed

theorem rendering_returns_witness:
  "wellFormed (loadSpans noParentless) 3 [0, 1, 2] noParentless
   \<and> distinct (map spanId noParentless) \<and> length noParentless \<le> 3
   \<and> noParentless \<noteq> [] \<and> \<not> ownAncestor noParentless (rootIndex noParentless)
   \<and> (\<exists>root' st'. buildSpanTree 3 3 (loadSpans noParentless) = (Inr root', st'))
   \<and> (\<exists>st'. renderTrace 3 (ascii ''0af7651916cd43dd'') 3 (loadSpans noParentless)
              = (Inr (), st'))"
proof -
  have d: "distinct (map spanId noParentless)"
    by (simp add: noParentless_def mkSpan_def ascii_def)
  have dp: "length noParentless \<le> 3" and ne: "noParentless \<noteq> []"
    by (simp_all add: noParentless_def)
  have rooted: "noParentless = [] \<or> \<not> ownAncestor noParentless (rootIndex noParentless)"
    using not_ownAncestor_noParentless by simp
  from rendering_returns [OF wellFormed_noParentless d dp rooted,
      where traceId = "ascii ''0af7651916cd43dd''"]
  show ?thesis
    using wellFormed_noParentless d dp ne not_ownAncestor_noParentless by blast
qed

subsection \<open>A span that is its own parent\<close>

lemma renderNode_self_loop:
  "childrenAt st r = [r]
   \<Longrightarrow> fst (renderNode depth st tot t0 r prefix isLast isRoot lines) = Inl StackOverflow"
proof (induction depth arbitrary: prefix isLast isRoot lines)
  case 0
  show ?case by simp
next
  case (Suc depth)
  from Suc.prems obtain nd where nd: "heap st r = Some (Node nd)" "children nd = [r]"
    by (auto simp: childrenAt_def split: option.splits obj.splits)
  from renderNode_Suc [OF nd(1), of depth tot t0 prefix isLast isRoot lines]
  obtain line childPrefix where step:
    "renderNode (Suc depth) st tot t0 r prefix isLast isRoot lines
       = forEach
           (\<lambda>child index ls.
              renderNode depth st tot t0 child childPrefix
                (int index = int (length (children nd)) - 1) False ls)
           (children nd) 0 (lines @ [line])"
    by blast
  from Suc.IH [OF Suc.prems, of childPrefix True False "lines @ [line]"]
  obtain ls where "renderNode depth st tot t0 r childPrefix True False (lines @ [line])
      = (Inl StackOverflow, ls)"
    by (cases "renderNode depth st tot t0 r childPrefix True False (lines @ [line])") auto
  then show ?case unfolding step by (simp add: nd(2))
qed

lemma renderSpanTree_self_loop:
  assumes "childrenAt st r = [r]"
  shows "renderSpanTree depth r tot t0 st = Inl StackOverflow"
proof -
  from renderSpanTree_cases [of depth r tot t0 st] obtain markers where
    eq: "renderSpanTree depth r tot t0 st
     = (case renderNode depth st tot t0 r [] True True [markers] of
          (Inl e, lines) \<Rightarrow> Inl e
        | (Inr u, lines) \<Rightarrow> Inr (join [0x0A] lines))"
    by blast
  from renderNode_self_loop [OF assms, of depth tot t0 "[]" True True "[markers]"]
  obtain ls where "renderNode depth st tot t0 r [] True True [markers] = (Inl StackOverflow, ls)"
    by (cases "renderNode depth st tot t0 r [] True True [markers]") auto
  then show ?thesis unfolding eq by simp
qed

lemma childrenAt_console: "childrenAt (console_log s st) r = childrenAt st r"
  by (simp add: childrenAt_def console_log_def)

lemma buildSpanTree_selfParent:
  "fst (buildSpanTree depth 1 (loadSpans selfParent)) = Inr (Some 2)
   \<and> childrenAt (snd (buildSpanTree depth 1 (loadSpans selfParent))) 2 = [2]
   \<and> heap (snd (buildSpanTree depth 1 (loadSpans selfParent))) 1 = Some (Array [0])"
  by (simp add: build_eval selfParent_def)

lemma renderTrace_selfParent:
  "fst (renderTrace depth traceId 1 (loadSpans selfParent)) = Inl StackOverflow"
proof -
  define st1 where "st1 = snd (buildSpanTree depth 1 (loadSpans selfParent))"
  have b: "buildSpanTree depth 1 (loadSpans selfParent) = (Inr (Some 2), st1)"
    using buildSpanTree_selfParent [of depth] unfolding st1_def
    by (metis prod.collapse)
  have c: "childrenAt st1 2 = [2]" and a: "heap st1 1 = Some (Array [0])"
    using buildSpanTree_selfParent [of depth] by (simp_all add: st1_def)
  from c obtain nd where nd: "heap st1 2 = Some (Node nd)"
    by (auto simp: childrenAt_def split: option.splits obj.splits)
  from renderTrace_cases [OF b nd a, of traceId] obtain header where
    rt: "renderTrace depth traceId 1 (loadSpans selfParent)
     = (case renderSpanTree depth 2 (duration nd) (startTime nd)
               (console_log header (console_log [] st1)) of
          Inl e \<Rightarrow> (Inl e, console_log header (console_log [] st1))
        | Inr text' \<Rightarrow>
            (Inr (), console_log [] (console_log text'
                       (console_log header (console_log [] st1)))))"
    by blast
  have "childrenAt (console_log header (console_log [] st1)) 2 = [2]"
    by (simp add: childrenAt_console c)
  from renderSpanTree_self_loop [OF this] show ?thesis
    unfolding rt by simp
qed

lemma ownAncestor_selfParent: "ownAncestor selfParent (rootIndex selfParent)"
proof -
  have r: "rootIndex selfParent = 0"
    by (simp add: rootIndex_def lastParentless_def selfParent_def mkSpan_def truthy_def
        ascii_def)
  have "parentIndex selfParent 0 = Some 0"
    by (simp add: parentIndex_def selfParent_def mkSpan_def isChildOf_def truthy_def ascii_def)
  then have "ancestor selfParent (Suc 0) 0 = Some 0" by simp
  moreover have "Suc 0 \<in> {1..length selfParent}" by (simp add: selfParent_def)
  ultimately show ?thesis unfolding ownAncestor_def r by blast
qed

text \<open>
  Claim C2 as stated fails on a parent cycle through the root: for the one span that is
  its own parent, \<^verbatim>\<open>buildSpanTree\<close> returns (by the fallback) a root that is its own
  child, and \<^verbatim>\<open>renderSpanTree\<close> and \<^verbatim>\<open>renderTrace\<close> exhaust the call stack however deep it
  is.
\<close>

theorem rendering_returns_counterexample:
  "wellFormed (loadSpans selfParent) 1 [0] selfParent
   \<and> distinct (map spanId selfParent)
   \<and> ownAncestor selfParent (rootIndex selfParent)
   \<and> fst (buildSpanTree 10000 1 (loadSpans selfParent)) = Inr (Some 2)
   \<and> childrenAt (snd (buildSpanTree 10000 1 (loadSpans selfParent))) 2 = [2]
   \<and> renderSpanTree 10000 2 100 0 (snd (buildSpanTree 10000 1 (loadSpans selfParent)))
       = Inl StackOverflow
   \<and> fst (renderTrace 10000 (ascii ''0af7651916cd43dd'') 1 (loadSpans selfParent))
       = Inl StackOverflow"
proof -
  have "wellFormed (loadSpans selfParent) 1 [0] selfParent"
    by (simp add: wellFormed_def loadSpans_def selfParent_def)
  moreover have "distinct (map spanId selfParent)" by (simp add: selfParent_def)
  ultimately show ?thesis
    using buildSpanTree_selfParent [of 10000] renderTrace_selfParent [of 10000]
      ownAncestor_selfParent
    by (simp add: renderSpanTree_self_loop)
qed

subsection \<open>The order of the children under a root without a parent\<close>

lemma treeState_startTimeAt:
  "treeState n0 ss kids st \<Longrightarrow> j < length ss \<Longrightarrow> startTimeAt st (n0 + j) = startTime (ss ! j)"
  by (simp add: treeState_def startTimeAt_def newNode_def)

lemma descendant_less: "descendant ss i x \<Longrightarrow> i < length ss \<Longrightarrow> x < length ss"
  by (induction rule: descendant.induct) auto

lemma descendant_cases:
  "descendant ss i x \<Longrightarrow>
     x = i \<or> (\<exists>j. j < length ss \<and> isChildOf (ss ! j) (ss ! i) \<and> descendant ss j x)"
proof (induction rule: descendant.induct)
  case descendant_self
  show ?case by simp
next
  case (descendant_child p c)
  from descendant_child.IH show ?case
  proof
    assume "p = i"
    with descendant_child.hyps(2,3) descendant_self [of ss c] show ?thesis by blast
  next
    assume "\<exists>j. j < length ss \<and> isChildOf (ss ! j) (ss ! i) \<and> descendant ss j p"
    then obtain j where "j < length ss" "isChildOf (ss ! j) (ss ! i)" "descendant ss j p"
      by blast
    with descendant_child.hyps(2,3) show ?thesis
      by (meson descendant.descendant_child)
  qed
qed

lemma forEach_success_prefix:
  assumes "P done s"
    and "\<And>c j t seen. c \<in> set cs \<Longrightarrow> P seen t \<Longrightarrow> \<exists>t'. f c j t = (Inr (), t') \<and> P (seen @ [c]) t'"
  shows "\<exists>s'. forEach f cs i s = (Inr (), s') \<and> P (done @ cs) s'"
  using assms
proof (induction cs arbitrary: i s "done")
  case Nil
  then show ?case by simp
next
  case (Cons c cs)
  from Cons.prems(2) [of c "done" s i] Cons.prems(1)
  obtain t where t: "f c i s = (Inr (), t)" "P (done @ [c]) t" by auto
  from Cons.IH [OF t(2), of "Suc i"] Cons.prems(2)
  obtain s' where "forEach f cs (Suc i) t = (Inr (), s')" "P ((done @ [c]) @ cs) s'"
    by (metis list.set_intros(2))
  with t(1) show ?case by simp
qed

lemma sorted_sort_key_again:
  "sorted (map f xs) \<Longrightarrow> ys = xs \<or> ys = sort_key f xs \<Longrightarrow> sorted (map f ys)"
  by (auto simp: sorted_sort_key)

lemma sortChildren_sorts:
  assumes d: "distinct (map spanId ss)"
  shows "treeState n0 ss kids st
    \<Longrightarrow> \<forall>i. i < length ss \<longrightarrow> mset (kids i) = mset (childIndices ss (length ss) i)
    \<Longrightarrow> upchain ss (i # rest) \<Longrightarrow> distinct (i # rest)
    \<Longrightarrow> \<not> ownAncestor ss (last (i # rest))
    \<Longrightarrow> length ss < depth + length (i # rest)
    \<Longrightarrow> \<exists>kids' st'. sortChildren depth (n0 + i) idx st = (Inr (), st')
          \<and> treeState n0 ss kids' st'
          \<and> (\<forall>i. i < length ss \<longrightarrow> mset (kids' i) = mset (childIndices ss (length ss) i))
          \<and> (\<forall>x. x < length ss \<longrightarrow>
                kids' x = kids x \<or> kids' x = sort_key (\<lambda>j. startTime (ss ! j)) (kids x))
          \<and> (\<forall>x. descendant ss i x \<longrightarrow> sorted (map (\<lambda>j. startTime (ss ! j)) (kids' x)))"
proof (induction depth arbitrary: i rest idx st kids)
  case 0
  with upchain_length [of ss "i # rest"] show ?case by simp
next
  case (Suc depth)
  define key where "key = (\<lambda>j. startTime (ss ! j))"
  have i: "i < length ss" using upchain_less [OF Suc.prems(3)] by simp
  have kidset: "set (kids i) = set (childIndices ss (length ss) i)"
    using Suc.prems(2) i by (metis mset_eq_setD)
  have "\<forall>j \<in> set (kids i). startTimeAt st (n0 + j) = key j"
    using kidset treeState_startTimeAt [OF Suc.prems(1)] by (simp add: childIndices_def key_def)
  then have ks_key: "sort_key (\<lambda>j. startTimeAt st (n0 + j)) (kids i) = sort_key key (kids i)"
    by (rule sort_key_cong_on)
  define ks where "ks = sort_key key (kids i)"
  define kids1 where "kids1 = kids(i := ks)"
  define nd where "nd = (newNode (ss ! i))\<lparr>children := map (\<lambda>j. n0 + j) (kids i)\<rparr>"
  define st1 where
    "st1 = st\<lparr>heap := (heap st)(n0 + i \<mapsto> Node (nd\<lparr>children := map (\<lambda>j. n0 + j) ks\<rparr>))\<rparr>"
  define P where "P seen t \<longleftrightarrow> (\<exists>kt. treeState n0 ss kt t
          \<and> (\<forall>i. i < length ss \<longrightarrow> mset (kt i) = mset (childIndices ss (length ss) i))
          \<and> (\<forall>x. x < length ss \<longrightarrow> kt x = kids1 x \<or> kt x = sort_key key (kids1 x))
          \<and> (\<forall>j x. n0 + j \<in> set seen \<longrightarrow> descendant ss j x \<longrightarrow> x < length ss
                \<longrightarrow> sorted (map key (kt x))))"
    for seen t
  have hn: "heap st (n0 + i) = Some (Node nd)"
    using Suc.prems(1) i by (simp add: treeState_def nd_def)
  have sorted: "sort_key (startTimeAt st) (children nd) = map (\<lambda>j. n0 + j) ks"
    by (simp add: nd_def ks_def sort_key_map ks_key)
  have step: "sortChildren (Suc depth) (n0 + i) idx st
      = forEach (\<lambda>c j s. sortChildren depth c j s) (map (\<lambda>j. n0 + j) ks) 0 st1"
    using hn by (simp add: sorted st1_def Let_def)
  have nd1: "nd\<lparr>children := map (\<lambda>j. n0 + j) ks\<rparr>
      = (newNode (ss ! i))\<lparr>children := map (\<lambda>j. n0 + j) (kids1 i)\<rparr>"
    by (simp add: nd_def kids1_def)
  have ts1: "treeState n0 ss kids1 st1"
    unfolding st1_def nd1
    by (rule treeState_update [OF Suc.prems(1) i]) (simp add: kids1_def)
  have perm1: "\<forall>i. i < length ss \<longrightarrow> mset (kids1 i) = mset (childIndices ss (length ss) i)"
    using Suc.prems(2) i by (auto simp: kids1_def ks_def)
  have P1: "P [] st1"
    unfolding P_def using ts1 perm1 by auto
  have ksset: "set ks = set (childIndices ss (length ss) i)"
    using kidset by (simp add: ks_def)
  have ks_sorted: "sorted (map key ks)" by (simp add: ks_def sorted_sort_key)
  have "\<exists>s'. forEach (\<lambda>c j s. sortChildren depth c j s) (map (\<lambda>j. n0 + j) ks) 0 st1
          = (Inr (), s') \<and> P ([] @ map (\<lambda>j. n0 + j) ks) s'"
  proof (rule forEach_success_prefix [where P = P, OF P1])
    fix c j' t seen
    assume c: "c \<in> set (map (\<lambda>j. n0 + j) ks)" and t: "P seen t"
    from c ksset obtain j where j: "c = n0 + j" "j < length ss" "isChildOf (ss ! j) (ss ! i)"
      by (auto simp: childIndices_def)
    from t obtain kt where kt: "treeState n0 ss kt t"
      "\<forall>i. i < length ss \<longrightarrow> mset (kt i) = mset (childIndices ss (length ss) i)"
      and k1: "\<forall>x. x < length ss \<longrightarrow> kt x = kids1 x \<or> kt x = sort_key key (kids1 x)"
      and seen: "\<forall>j x. n0 + j \<in> set seen \<longrightarrow> descendant ss j x \<longrightarrow> x < length ss
                  \<longrightarrow> sorted (map key (kt x))"
      unfolding P_def by blast
    from upchain_extend [OF d Suc.prems(3,4,5) j(2,3)]
    have up: "upchain ss (j # i # rest)" and dc: "distinct (j # i # rest)" by simp_all
    have top: "\<not> ownAncestor ss (last (j # i # rest))" using Suc.prems(5) by simp
    have dp: "length ss < depth + length (j # i # rest)" using Suc.prems(6) by simp
    from Suc.IH [OF kt up dc top dp, of j', folded key_def]
    obtain kt' t' where run: "sortChildren depth (n0 + j) j' t = (Inr (), t')"
      and ts': "treeState n0 ss kt' t'"
      and pm': "\<forall>i. i < length ss \<longrightarrow> mset (kt' i) = mset (childIndices ss (length ss) i)"
      and k': "\<forall>x. x < length ss \<longrightarrow> kt' x = kt x \<or> kt' x = sort_key key (kt x)"
      and s': "\<forall>x. descendant ss j x \<longrightarrow> sorted (map key (kt' x))"
      by blast
    have k1': "kt' x = kids1 x \<or> kt' x = sort_key key (kids1 x)" if "x < length ss" for x
    proof -
      from k1 that have "kt x = kids1 x \<or> kt x = sort_key key (kids1 x)" by blast
      moreover from k' that have "kt' x = kt x \<or> kt' x = sort_key key (kt x)" by blast
      moreover have "sort_key key (sort_key key (kids1 x)) = sort_key key (kids1 x)"
        by (simp add: sort_key_id_if_sorted sorted_sort_key)
      ultimately show ?thesis by auto
    qed
    have seen': "sorted (map key (kt' x))"
      if "n0 + j'' \<in> set (seen @ [c])" "descendant ss j'' x" "x < length ss" for j'' x
    proof (cases "j'' = j")
      case True
      with s' that(2) show ?thesis by blast
    next
      case False
      with that(1) j(1) have "n0 + j'' \<in> set seen" by simp
      with seen that(2,3) have sx: "sorted (map key (kt x))" by blast
      from k' that(3) have "kt' x = kt x \<or> kt' x = sort_key key (kt x)" by blast
      with sx show ?thesis by (rule sorted_sort_key_again)
    qed
    show "\<exists>t'. sortChildren depth c j' t = (Inr (), t') \<and> P (seen @ [c]) t'"
      unfolding P_def j(1) using run ts' pm' k1' seen' j(1) by blast
  qed
  then obtain st' where run: "sortChildren (Suc depth) (n0 + i) idx st = (Inr (), st')"
    and Pf: "P (map (\<lambda>j. n0 + j) ks) st'"
    unfolding step by auto
  from Pf obtain kf where tsf: "treeState n0 ss kf st'"
    and pmf: "\<forall>i. i < length ss \<longrightarrow> mset (kf i) = mset (childIndices ss (length ss) i)"
    and k1f: "\<forall>x. x < length ss \<longrightarrow> kf x = kids1 x \<or> kf x = sort_key key (kids1 x)"
    and seenf: "\<forall>j x. n0 + j \<in> set (map (\<lambda>j. n0 + j) ks) \<longrightarrow> descendant ss j x
                  \<longrightarrow> x < length ss \<longrightarrow> sorted (map key (kf x))"
    unfolding P_def by blast
  have kfi: "kf i = ks"
    using k1f i ks_sorted by (auto simp: kids1_def sort_key_id_if_sorted)
  have kf: "kf x = kids x \<or> kf x = sort_key key (kids x)" if "x < length ss" for x
  proof (cases "x = i")
    case True
    then show ?thesis by (simp add: kfi ks_def)
  next
    case False
    then have "kids1 x = kids x" by (simp add: kids1_def)
    with k1f that show ?thesis by metis
  qed
  have sf: "sorted (map key (kf x))" if "descendant ss i x" for x
  proof -
    from descendant_cases [OF that] show ?thesis
    proof
      assume "x = i"
      with kfi ks_sorted show ?thesis by simp
    next
      assume "\<exists>j. j < length ss \<and> isChildOf (ss ! j) (ss ! i) \<and> descendant ss j x"
      then obtain j where j: "j < length ss" "isChildOf (ss ! j) (ss ! i)" "descendant ss j x"
        by blast
      then have "j \<in> set ks" by (simp add: ksset childIndices_def)
      moreover have "x < length ss" using descendant_less [OF j(3) j(1)] .
      ultimately show ?thesis using seenf j(3) by auto
    qed
  qed
  from run tsf pmf kf sf show ?case unfolding key_def by blast
qed

lemma inTree_descendant:
  assumes ts: "treeState n0 ss kids st"
    and pm: "\<forall>i. i < length ss \<longrightarrow> mset (kids i) = mset (childIndices ss (length ss) i)"
    and j0: "j0 < length ss"
  shows "inTree st (n0 + j0) r \<Longrightarrow> \<exists>x. x < length ss \<and> r = n0 + x \<and> descendant ss j0 x"
proof (induction rule: inTree.induct)
  case inTree_root
  with j0 descendant_self [of ss j0] show ?case by blast
next
  case (inTree_child p c)
  then obtain x where x: "x < length ss" "p = n0 + x" "descendant ss j0 x" by blast
  from inTree_child.hyps(2) have "c \<in> set (map (\<lambda>j. n0 + j) (kids x))"
    by (simp add: x(2) treeState_childrenAt [OF ts x(1)])
  then obtain c' where c': "c = n0 + c'" "c' \<in> set (kids x)" by auto
  from pm x(1) have "set (kids x) = set (childIndices ss (length ss) x)"
    by (metis mset_eq_setD)
  with c'(2) have lt: "c' < length ss" and ch: "isChildOf (ss ! c') (ss ! x)"
    by (simp_all add: childIndices_def)
  from descendant_child [OF x(3) lt ch] lt c'(1) show ?case by blast
qed

text \<open>
  The branch that claim C3 is right about. For a list of spans with unique \<^verbatim>\<open>spanId\<close>s
  that has a span without a parent, \<^verbatim>\<open>buildSpanTree\<close> returns (given a call stack at
  least as deep as the list is long) a tree in which the children of every node are in
  non-decreasing order of \<^verbatim>\<open>startTime\<close>.
\<close>

theorem children_sorted_under_parentless_root:
  assumes wf: "wellFormed st spans elems ss" and d: "distinct (map spanId ss)"
    and dp: "length ss \<le> depth"
    and rooted: "\<exists>s \<in> set ss. \<not> truthy (parentSpanId s)"
  shows "\<exists>root' st'. buildSpanTree depth spans st = (Inr (Some root'), st')
      \<and> (\<forall>r. inTree st' root' r \<longrightarrow> sorted (map (startTimeAt st') (childrenAt st' r)))"
proof -
  define n0 where "n0 = nextRef st"
  from rooted obtain k where k: "k < length ss" "\<not> truthy (parentSpanId (ss ! k))"
    by (auto simp: in_set_conv_nth)
  with lastParentless_None [of ss "length ss" k]
  obtain i0 where lp: "lastParentless ss (length ss) = Some i0" by auto
  from lastParentless_Some [OF lp]
  have i0: "i0 < length ss" and up: "upchain ss [i0]"
    and top: "\<not> ownAncestor ss (last [i0])"
    by (simp_all add: parentless_not_ownAncestor)
  from loops_distinct [OF wf d] lp
  obtain m st1 st2 where cn: "createNodes elems Map.empty st = (Inr m, st1)"
    and ln: "linkNodes elems m None st1 = (Inr (Some (n0 + i0)), st2)"
    and ts2: "treeState n0 ss (childIndices ss (length ss)) st2"
    unfolding n0_def by auto
  have ne: "elems \<noteq> []" using i0 wellFormed_nth(1) [OF wf] by auto
  have sp: "heap st spans = Some (Array elems)"
    using wf by (simp add: wellFormed_def)
  from sortChildren_sorts [OF d ts2 _ up _ top, of depth 0] dp
  obtain kids st' where sc: "sortChildren depth (n0 + i0) 0 st2 = (Inr (), st')"
    and ts: "treeState n0 ss kids st'"
    and pm: "\<forall>i. i < length ss \<longrightarrow> mset (kids i) = mset (childIndices ss (length ss) i)"
    and so: "\<forall>x. descendant ss i0 x \<longrightarrow> sorted (map (\<lambda>j. startTime (ss ! j)) (kids x))"
    by auto
  have run: "buildSpanTree depth spans st = (Inr (Some (n0 + i0)), st')"
    using sp ne cn ln sc by (simp add: buildSpanTree_def)
  have "sorted (map (startTimeAt st') (childrenAt st' r))" if "inTree st' (n0 + i0) r" for r
  proof -
    from inTree_descendant [OF ts pm i0 that] obtain x where
      x: "x < length ss" "r = n0 + x" "descendant ss i0 x" by blast
    from pm x(1) have "set (kids x) = set (childIndices ss (length ss) x)"
      by (metis mset_eq_setD)
    then have "\<forall>j \<in> set (kids x). j < length ss" by (simp add: childIndices_def)
    then have eq: "map (startTimeAt st') (map (\<lambda>j. n0 + j) (kids x))
        = map (\<lambda>j. startTime (ss ! j)) (kids x)"
      using treeState_startTimeAt [OF ts] by simp
    from so x(3) have srt: "sorted (map (\<lambda>j. startTime (ss ! j)) (kids x))" by blast
    show ?thesis
      by (simp only: x(2) treeState_childrenAt [OF ts x(1)] eq srt)
  qed
  with run show ?thesis by blast
qed

theorem children_sorted_under_parentless_root_witness:
  "wellFormed (loadSpans rootWithTwoChildren) 3 [0, 1, 2] rootWithTwoChildren
   \<and> distinct (map spanId rootWithTwoChildren) \<and> length rootWithTwoChildren \<le> 3
   \<and> \<not> list_all (\<lambda>s. truthy (parentSpanId s)) rootWithTwoChildren
   \<and> (\<exists>root' st'. buildSpanTree 3 3 (loadSpans rootWithTwoChildren) = (Inr (Some root'), st')
        \<and> sorted (map (startTimeAt st') (childrenAt st' root')))"
proof -
  have d: "distinct (map spanId rootWithTwoChildren)"
    by (simp add: rootWithTwoChildren_def mkSpan_def ascii_def)
  have dp: "length rootWithTwoChildren \<le> 3" by (simp add: rootWithTwoChildren_def)
  have root: "\<not> list_all (\<lambda>s. truthy (parentSpanId s)) rootWithTwoChildren"
    by (simp add: rootWithTwoChildren_def mkSpan_def truthy_def)
  then have rooted: "\<exists>s \<in> set rootWithTwoChildren. \<not> truthy (parentSpanId s)"
    by (simp add: list_all_iff)
  from children_sorted_under_parentless_root [OF wellFormed_rootWithTwoChildren d dp rooted]
  obtain root' st' where
    "buildSpanTree 3 3 (loadSpans rootWithTwoChildren) = (Inr (Some root'), st')"
    "\<forall>r. inTree st' root' r \<longrightarrow> sorted (map (startTimeAt st') (childrenAt st' r))"
    by blast
  with inTree_root [of st' root'] wellFormed_rootWithTwoChildren d dp root
  show ?thesis by blast
qed

subsection \<open>The rows of the rendered text\<close>






subsection \<open>Spans whose parent is not in the input\<close>





end
